theory Spec2Isabelle
  imports Main "HOL-Library.Sublist" "HOL-Library.AList" "HOL-Library.Char_ord"
    "HOL-Library.List_Lexorder"
begin

unbundle bit_operations_syntax

section \<open>Permission Normalizer: \<open>ensure_executable_scripts\<close>\<close>

text \<open>
  The scripts directory is walked with \<open>scripts_root.rglob("*.sh")\<close>. A path below the root
  is a name for an inode: \<open>lstat\<close> says whether the name is a symbolic link, while
  \<open>is_file()\<close>, \<open>open\<close>, \<open>stat\<close> and \<open>os.chmod\<close> follow the name to its inode. Two names
  of one inode are hard links of one file, or a file and a symbolic link to it. The inode
  holds what the names share: whether it is a regular file, the first two bytes (\<open>None\<close>
  when opening or reading raises) and the \<open>st_mode\<close>. Whether \<open>os.chmod\<close> succeeds is
  recorded with the name.
\<close>

type_synonym path = "string list"

record dirent =
  d_symlink :: bool
  d_ino :: nat
  d_chmod_ok :: bool

record inode =
  i_file :: bool
  i_head2 :: "string option"
  i_mode :: nat

record scripts_fs =
  links :: "(path \<times> dirent) list"
  inodes :: "nat \<Rightarrow> inode"

text \<open>What the calls of the loop body report about a path.\<close>

record fentry =
  is_symlink :: bool
  is_file :: bool
  head2 :: "string option"
  st_mode :: nat
  chmod_ok :: bool

definition stat_path :: "scripts_fs \<Rightarrow> path \<Rightarrow> fentry option" where
  "stat_path fs p =
     (case map_of (links fs) p of
        None \<Rightarrow> None
      | Some d \<Rightarrow>
          Some \<lparr>is_symlink = d_symlink d, is_file = i_file (inodes fs (d_ino d)),
                head2 = i_head2 (inodes fs (d_ino d)), st_mode = i_mode (inodes fs (d_ino d)),
                chmod_ok = d_chmod_ok d\<rparr>)"

text \<open>\<open>os.chmod(path, mode)\<close> sets the mode of the inode the path names.\<close>

definition chmod :: "path \<Rightarrow> nat \<Rightarrow> scripts_fs \<Rightarrow> scripts_fs" where
  "chmod p mode fs =
     (case map_of (links fs) p of
        None \<Rightarrow> fs
      | Some d \<Rightarrow> fs\<lparr>inodes := (inodes fs)(d_ino d := (inodes fs (d_ino d))\<lparr>i_mode := mode\<rparr>)\<rparr>)"

text \<open>The octal masks of the source: \<open>0o111 = 73\<close>, \<open>0o400 = 256\<close>, \<open>0o040 = 32\<close>,
  \<open>0o004 = 4\<close>, \<open>0o100 = 64\<close>, \<open>0o010 = 8\<close>, \<open>0o001 = 1\<close>.\<close>

definition derive_mode :: "nat \<Rightarrow> nat" where
  "derive_mode mode =
     (let new_mode = mode;
          new_mode = (if mode AND 256 \<noteq> 0 then new_mode OR 64 else new_mode);
          new_mode = (if mode AND 32 \<noteq> 0 then new_mode OR 8 else new_mode);
          new_mode = (if mode AND 4 \<noteq> 0 then new_mode OR 1 else new_mode)
      in if new_mode AND 64 = 0 then new_mode OR 64 else new_mode)"

datatype outcome = Skipped | Updated fentry | Failed

text \<open>One iteration of the loop body for a path that exists.\<close>

definition normalize_script :: "fentry \<Rightarrow> outcome" where
  "normalize_script e =
     (if is_symlink e \<or> \<not> is_file e then Skipped
      else if head2 e \<noteq> Some ''#!'' then Skipped
      else if st_mode e AND 73 \<noteq> 0 then Skipped
      else if chmod_ok e then Updated (e\<lparr>st_mode := derive_mode (st_mode e)\<rparr>)
      else Failed)"

text \<open>\<open>rglob("*.sh")\<close>: every path below the root whose last component matches \<open>*.sh\<close>.\<close>

definition matches_sh :: "string \<Rightarrow> bool" where
  "matches_sh name = suffix ''.sh'' name"

definition rglob_sh :: "scripts_fs \<Rightarrow> path list" where
  "rglob_sh fs = map fst (filter (\<lambda>(p, e). p \<noteq> [] \<and> matches_sh (last p)) (links fs))"

record chmod_report =
  tree :: scripts_fs
  updated :: nat
  failures :: "path list"

fun chmod_loop :: "path list \<Rightarrow> chmod_report \<Rightarrow> chmod_report" where
  "chmod_loop [] r = r"
| "chmod_loop (p # ps) r =
     (case stat_path (tree r) p of
        None \<Rightarrow> chmod_loop ps r
      | Some e \<Rightarrow>
          (case normalize_script e of
             Skipped \<Rightarrow> chmod_loop ps r
           | Updated e' \<Rightarrow>
               chmod_loop ps (r\<lparr>tree := chmod p (st_mode e') (tree r), updated := updated r + 1\<rparr>)
           | Failed \<Rightarrow> chmod_loop ps (r\<lparr>failures := failures r @ [p]\<rparr>)))"

text \<open>\<open>scripts_root\<close> is \<open>None\<close> when \<open>scripts_root.is_dir()\<close> is false.\<close>

definition ensure_executable_scripts :: "string \<Rightarrow> scripts_fs option \<Rightarrow> chmod_report option" where
  "ensure_executable_scripts os_name scripts_root =
     (if os_name = ''nt'' then None
      else case scripts_root of
             None \<Rightarrow> None
           | Some fs \<Rightarrow> Some (chmod_loop (rglob_sh fs) \<lparr>tree = fs, updated = 0, failures = []\<rparr>))"

text \<open>The tree after the call: unchanged when the function returns early.\<close>

definition scripts_after :: "string \<Rightarrow> scripts_fs \<Rightarrow> scripts_fs" where
  "scripts_after os_name fs =
     (case ensure_executable_scripts os_name (Some fs) of None \<Rightarrow> fs | Some r \<Rightarrow> tree r)"

subsection \<open>Properties of the normalizer\<close>

lemma mask_conds:
  "((m::nat) AND 256 \<noteq> 0) = bit m 8" "(m AND 32 \<noteq> 0) = bit m 5" "(m AND 4 \<noteq> 0) = bit m 2"
  "(m AND 64 = 0) = (\<not> bit m 6)"
  using and_exp_eq_0_iff_not_bit [of m 8] and_exp_eq_0_iff_not_bit [of m 5]
    and_exp_eq_0_iff_not_bit [of m 2] and_exp_eq_0_iff_not_bit [of m 6]
  by simp_all

lemma bit_or_masks:
  "bit ((x::nat) OR 64) n = (bit x n \<or> n = 6)"
  "bit (x OR 8) n = (bit x n \<or> n = 3)"
  "bit (x OR 1) n = (bit x n \<or> n = 0)"
  "bit (x OR Suc 0) n = (bit x n \<or> n = 0)"
proof -
  have "(64::nat) = 2 ^ 6" "(8::nat) = 2 ^ 3" by simp_all
  then show "bit (x OR 64) n = (bit x n \<or> n = 6)" "bit (x OR 8) n = (bit x n \<or> n = 3)"
    by (simp_all only: bit_or_iff bit_exp_iff) auto
  show "bit (x OR 1) n = (bit x n \<or> n = 0)"
    by (simp only: bit_or_iff bit_1_iff)
  then show "bit (x OR Suc 0) n = (bit x n \<or> n = 0)"
    by simp
qed

lemma bit_derive_mode:
  "bit (derive_mode m) n \<longleftrightarrow>
     bit m n \<or> (n = 6 \<and> bit m 8) \<or> (n = 3 \<and> bit m 5) \<or> (n = 0 \<and> bit m 2) \<or> n = 6"
  unfolding derive_mode_def Let_def mask_conds
  by (auto simp: bit_or_masks)

lemma derive_mode_has_exec: "derive_mode m AND 73 \<noteq> 0"
proof
  assume "derive_mode m AND 73 = 0"
  then have "\<not> bit (derive_mode m AND 73) 6" by simp
  moreover have "bit (73::nat) 6" by (simp add: bit_iff_odd)
  ultimately show False by (simp add: bit_and_iff bit_derive_mode)
qed

lemma normalize_updated:
  "normalize_script e = Updated e' \<longleftrightarrow>
     \<not> is_symlink e \<and> is_file e \<and> head2 e = Some ''#!'' \<and> st_mode e AND 73 = 0 \<and> chmod_ok e
     \<and> e' = e\<lparr>st_mode := derive_mode (st_mode e)\<rparr>"
  by (auto simp: normalize_script_def)

lemma links_chmod [simp]: "links (chmod p m fs) = links fs"
  by (simp add: chmod_def split: option.splits)

lemma links_chmod_loop [simp]: "links (tree (chmod_loop ps r)) = links (tree r)"
  by (induction ps arbitrary: r) (auto split: option.splits outcome.splits)

text \<open>An inode with an execute bit is left as it is.\<close>

lemma chmod_loop_exec:
  "i_mode (inodes (tree r) i) AND 73 \<noteq> 0 \<Longrightarrow> inodes (tree (chmod_loop ps r)) i = inodes (tree r) i"
proof (induction ps arbitrary: r)
  case Nil
  then show ?case by simp
next
  case (Cons p ps)
  show ?case
  proof (cases "stat_path (tree r) p")
    case None
    with Cons show ?thesis by simp
  next
    case (Some e)
    then obtain d where d: "map_of (links (tree r)) p = Some d"
      and e: "st_mode e = i_mode (inodes (tree r) (d_ino d))"
      by (auto simp: stat_path_def split: option.splits)
    show ?thesis
    proof (cases "normalize_script e")
      case (Updated e')
      then have "st_mode e AND 73 = 0" by (simp add: normalize_updated)
      with e Cons.prems have ne: "d_ino d \<noteq> i" by auto
      let ?r = "r\<lparr>tree := chmod p (st_mode e') (tree r), updated := updated r + 1\<rparr>"
      from ne d have same: "inodes (tree ?r) i = inodes (tree r) i" by (simp add: chmod_def)
      with Cons.prems have "inodes (tree (chmod_loop ps ?r)) i = inodes (tree ?r) i"
        by (intro Cons.IH) simp
      with same Some Updated show ?thesis by simp
    next
      case Skipped
      with Some Cons show ?thesis by simp
    next
      case Failed
      have "inodes (tree (chmod_loop ps (r\<lparr>failures := failures r @ [p]\<rparr>))) i
          = inodes (tree (r\<lparr>failures := failures r @ [p]\<rparr>)) i"
        using Cons.prems by (intro Cons.IH) simp
      with Some Failed show ?thesis by simp
    qed
  qed
qed

text \<open>
  The paths of the walk through which the inode \<open>i\<close> gets its new mode: names of \<open>i\<close> that
  are no symbolic links and on which \<open>os.chmod\<close> succeeds, when \<open>i\<close> is a regular file that
  starts with the shebang marker and has no execute bit.
\<close>

definition updates :: "scripts_fs \<Rightarrow> nat \<Rightarrow> path \<Rightarrow> bool" where
  "updates fs i p \<longleftrightarrow>
     (case map_of (links fs) p of
        None \<Rightarrow> False
      | Some d \<Rightarrow> d_ino d = i \<and> \<not> d_symlink d \<and> d_chmod_ok d)
     \<and> i_file (inodes fs i) \<and> i_head2 (inodes fs i) = Some ''#!'' \<and> i_mode (inodes fs i) AND 73 = 0"

lemma updates_cong:
  "links fs' = links fs \<Longrightarrow> inodes fs' i = inodes fs i \<Longrightarrow> updates fs' i p = updates fs i p"
  by (simp add: updates_def)

lemma chmod_loop_inode:
  "inodes (tree (chmod_loop ps r)) i =
     (if \<exists>p \<in> set ps. updates (tree r) i p
      then (inodes (tree r) i)\<lparr>i_mode := derive_mode (i_mode (inodes (tree r) i))\<rparr>
      else inodes (tree r) i)"
proof (induction ps arbitrary: r)
  case Nil
  then show ?case by simp
next
  case (Cons p ps)
  show ?case
  proof (cases "stat_path (tree r) p")
    case None
    then have "\<not> updates (tree r) i p" by (auto simp: stat_path_def updates_def split: option.splits)
    with None Cons.IH [of r] show ?thesis by simp
  next
    case (Some e)
    then obtain d where d: "map_of (links (tree r)) p = Some d"
      and e: "e = \<lparr>is_symlink = d_symlink d, is_file = i_file (inodes (tree r) (d_ino d)),
                head2 = i_head2 (inodes (tree r) (d_ino d)),
                st_mode = i_mode (inodes (tree r) (d_ino d)), chmod_ok = d_chmod_ok d\<rparr>"
      by (auto simp: stat_path_def split: option.splits)
    show ?thesis
    proof (cases "normalize_script e")
      case Skipped
      with d e have "\<not> updates (tree r) i p"
        by (auto simp: updates_def normalize_script_def split: if_splits)
      with Some Skipped Cons.IH [of r] show ?thesis by simp
    next
      case Failed
      let ?r = "r\<lparr>failures := failures r @ [p]\<rparr>"
      from Failed d e have "\<not> updates (tree r) i p"
        by (auto simp: updates_def normalize_script_def split: if_splits)
      with Some Failed Cons.IH [of ?r] show ?thesis by simp
    next
      case (Updated e')
      let ?m = "derive_mode (st_mode e)"
      let ?r = "r\<lparr>tree := chmod p ?m (tree r), updated := updated r + 1\<rparr>"
      from Updated have u: "\<not> is_symlink e" "is_file e" "head2 e = Some ''#!''"
        "st_mode e AND 73 = 0" "chmod_ok e" "e' = e\<lparr>st_mode := ?m\<rparr>"
        by (simp_all add: normalize_updated)
      from Some Updated u(6) have step: "chmod_loop (p # ps) r = chmod_loop ps ?r" by simp
      show ?thesis
      proof (cases "d_ino d = i")
        case True
        with d e u have up: "updates (tree r) i p" by (simp add: updates_def)
        from True d e have new: "inodes (tree ?r) i = (inodes (tree r) i)\<lparr>i_mode := ?m\<rparr>"
          and m: "st_mode e = i_mode (inodes (tree r) i)"
          by (simp_all add: chmod_def)
        then have "i_mode (inodes (tree ?r) i) AND 73 \<noteq> 0" by (simp add: derive_mode_has_exec)
        then have "inodes (tree (chmod_loop ps ?r)) i = inodes (tree ?r) i" by (rule chmod_loop_exec)
        with step new m up show ?thesis by simp
      next
        case False
        with d have same: "inodes (tree ?r) i = inodes (tree r) i" by (simp add: chmod_def)
        have "links (tree ?r) = links (tree r)" by simp
        then have "updates (tree ?r) i q = updates (tree r) i q" for q
          using same by (rule updates_cong)
        moreover from False d have "\<not> updates (tree r) i p" by (simp add: updates_def)
        ultimately show ?thesis using step same Cons.IH [of ?r] by simp
      qed
    qed
  qed
qed

lemma in_rglob_sh:
  "map_of (links fs) p = Some d \<Longrightarrow> p \<noteq> [] \<Longrightarrow> matches_sh (last p) \<Longrightarrow> p \<in> set (rglob_sh fs)"
  by (force simp: rglob_sh_def dest: map_of_SomeD)

lemma rglob_sh_matches: "p \<in> set (rglob_sh fs) \<Longrightarrow> p \<noteq> [] \<and> matches_sh (last p)"
  by (auto simp: rglob_sh_def)

lemma scripts_after_links [simp]: "links (scripts_after os_name fs) = links fs"
  by (simp add: scripts_after_def ensure_executable_scripts_def)

lemma scripts_after_inode:
  "inodes (scripts_after os_name fs) i =
     (if os_name \<noteq> ''nt'' \<and> (\<exists>p \<in> set (rglob_sh fs). updates fs i p)
      then (inodes fs i)\<lparr>i_mode := derive_mode (i_mode (inodes fs i))\<rparr>
      else inodes fs i)"
  by (simp add: scripts_after_def ensure_executable_scripts_def chmod_loop_inode)

text \<open>
  Claim C9. A regular, non-symlink \<open>*.sh\<close> file that starts with the shebang marker and has
  no execute bit gets the mode \<open>derive_mode\<close> of its old mode (when \<open>os.chmod\<close> succeeds);
  the bits of that mode are the old bits, the execute bit of every class whose read bit is
  set, and the owner-execute bit; a file that already has an execute bit is reported as
  before; and \<open>rw-r--r--\<close> (420) gains at least \<open>rwxr--r--\<close> (484). This holds whatever other
  names the inode of the file has.
\<close>

theorem permission_derivation:
  assumes "os_name \<noteq> ''nt''" and "stat_path fs p = Some e" and "p \<noteq> []" and "matches_sh (last p)"
    and "\<not> is_symlink e" and "is_file e" and "head2 e = Some ''#!''"
  shows "(st_mode e AND 73 = 0 \<and> chmod_ok e \<longrightarrow>
            stat_path (scripts_after os_name fs) p = Some (e\<lparr>st_mode := derive_mode (st_mode e)\<rparr>))
       \<and> (\<forall>n. bit (derive_mode (st_mode e)) n \<longleftrightarrow>
              bit (st_mode e) n \<or> (n = 6 \<and> bit (st_mode e) 8) \<or> (n = 3 \<and> bit (st_mode e) 5)
              \<or> (n = 0 \<and> bit (st_mode e) 2) \<or> n = 6)
       \<and> (st_mode e AND 73 \<noteq> 0 \<longrightarrow> stat_path (scripts_after os_name fs) p = Some e)
       \<and> derive_mode 420 AND 484 = 484"
proof -
  from assms(2) obtain d where d: "map_of (links fs) p = Some d"
    and e: "e = \<lparr>is_symlink = d_symlink d, is_file = i_file (inodes fs (d_ino d)),
                head2 = i_head2 (inodes fs (d_ino d)),
                st_mode = i_mode (inodes fs (d_ino d)), chmod_ok = d_chmod_ok d\<rparr>"
    by (auto simp: stat_path_def split: option.splits)
  from d assms(3,4) have p: "p \<in> set (rglob_sh fs)" by (rule in_rglob_sh)
  show ?thesis
  proof (intro conjI impI allI)
    assume a: "st_mode e AND 73 = 0 \<and> chmod_ok e"
    with d e assms(5-7) have "updates fs (d_ino d) p" by (simp add: updates_def)
    with p assms(1) have "inodes (scripts_after os_name fs) (d_ino d)
        = (inodes fs (d_ino d))\<lparr>i_mode := derive_mode (i_mode (inodes fs (d_ino d)))\<rparr>"
      by (auto simp: scripts_after_inode)
    with d e show "stat_path (scripts_after os_name fs) p
        = Some (e\<lparr>st_mode := derive_mode (st_mode e)\<rparr>)"
      by (simp add: stat_path_def)
  next
    fix n
    show "bit (derive_mode (st_mode e)) n \<longleftrightarrow>
              bit (st_mode e) n \<or> (n = 6 \<and> bit (st_mode e) 8) \<or> (n = 3 \<and> bit (st_mode e) 5)
              \<or> (n = 0 \<and> bit (st_mode e) 2) \<or> n = 6"
      by (rule bit_derive_mode)
  next
    assume "st_mode e AND 73 \<noteq> 0"
    with e have "\<not> updates fs (d_ino d) q" for q by (simp add: updates_def)
    then have "inodes (scripts_after os_name fs) (d_ino d) = inodes fs (d_ino d)"
      by (simp add: scripts_after_inode)
    with d e show "stat_path (scripts_after os_name fs) p = Some e"
      by (simp add: stat_path_def)
  next
    show "derive_mode 420 AND 484 = 484" by (simp add: derive_mode_def Let_def)
  qed
qed

text \<open>A regular file \<open>rw-r--r--\<close> (\<open>0o100644\<close>) starting with a shebang, under one name.\<close>

definition demo_script :: fentry where
  "demo_script = \<lparr>is_symlink = False, is_file = True, head2 = Some ''#!'', st_mode = 33188, chmod_ok = True\<rparr>"

definition demo_inode :: inode where
  "demo_inode = \<lparr>i_file = True, i_head2 = Some ''#!'', i_mode = 33188\<rparr>"

definition one_script :: "path \<Rightarrow> scripts_fs" where
  "one_script p =
     \<lparr>links = [(p, \<lparr>d_symlink = False, d_ino = 0, d_chmod_ok = True\<rparr>)], inodes = (\<lambda>_. demo_inode)\<rparr>"

theorem permission_derivation_witness:
  "stat_path (one_script [''bash'', ''setup.sh'']) [''bash'', ''setup.sh''] = Some demo_script
   \<and> stat_path (scripts_after ''posix'' (one_script [''bash'', ''setup.sh''])) [''bash'', ''setup.sh'']
     = Some (demo_script\<lparr>st_mode := 33261\<rparr>)"
proof -
  have m: "derive_mode 33188 = 33261" by (simp add: derive_mode_def Let_def)
  have z: "(33188::nat) AND 73 = 0" by simp
  have s: "matches_sh (last [''bash'', ''setup.sh''])" by (simp add: matches_sh_def suffix_def)
  have v: "stat_path (one_script [''bash'', ''setup.sh'']) [''bash'', ''setup.sh''] = Some demo_script"
    by (simp add: stat_path_def one_script_def demo_script_def demo_inode_def)
  show ?thesis
    using permission_derivation [of "''posix''" "one_script [''bash'', ''setup.sh'']"
      "[''bash'', ''setup.sh'']" demo_script] m z s v
    by (simp add: demo_script_def)
qed

text \<open>
  Claim C10 as stated fails for a file with two names. \<open>tool\<close> and \<open>tool.sh\<close> are hard links
  of one inode: the walk yields \<open>tool.sh\<close>, \<open>os.chmod\<close> sets the mode of the inode, and
  \<open>tool\<close> has the mode \<open>0o100755\<close> afterwards.
\<close>

definition linked_scripts :: scripts_fs where
  "linked_scripts =
     \<lparr>links = [([''tool.sh''], \<lparr>d_symlink = False, d_ino = 0, d_chmod_ok = True\<rparr>),
               ([''tool''], \<lparr>d_symlink = False, d_ino = 0, d_chmod_ok = True\<rparr>)],
      inodes = (\<lambda>_. demo_inode)\<rparr>"

theorem non_sh_hard_link_counterexample:
  "\<not> matches_sh (last [''tool''])
   \<and> stat_path linked_scripts [''tool''] = Some demo_script
   \<and> stat_path (scripts_after ''posix'' linked_scripts) [''tool''] = Some (demo_script\<lparr>st_mode := 33261\<rparr>)"
proof -
  have m: "derive_mode 33188 = 33261" by (simp add: derive_mode_def Let_def)
  have s: "matches_sh ''tool.sh''" "\<not> matches_sh ''tool''" by (simp_all add: matches_sh_def suffix_def)
  have r: "rglob_sh linked_scripts = [[''tool.sh'']]"
    by (simp add: rglob_sh_def linked_scripts_def s)
  have u: "updates linked_scripts 0 [''tool.sh'']"
    by (simp add: updates_def linked_scripts_def demo_inode_def)
  have i: "inodes linked_scripts 0 = demo_inode" by (simp add: linked_scripts_def)
  from r u have "inodes (scripts_after ''posix'' linked_scripts) 0
      = (inodes linked_scripts 0)\<lparr>i_mode := derive_mode (i_mode (inodes linked_scripts 0))\<rparr>"
    by (simp add: scripts_after_inode)
  with i m have "inodes (scripts_after ''posix'' linked_scripts) 0 = demo_inode\<lparr>i_mode := 33261\<rparr>"
    by (simp add: demo_inode_def)
  moreover have "map_of (links linked_scripts) [''tool'']
      = Some \<lparr>d_symlink = False, d_ino = 0, d_chmod_ok = True\<rparr>"
    by (simp add: linked_scripts_def)
  ultimately show ?thesis
    using s i by (simp add: stat_path_def demo_inode_def demo_script_def)
qed

text \<open>
  Claim C10, amended. The walk yields no path whose name does not end in \<open>.sh\<close>, and such a
  path is reported after the call as before it, mode included, whatever its kind, first bytes
  and mode, provided its inode has no name yielded by the walk that ends in \<open>.sh\<close> and is no
  symbolic link: it is not a hard link of such a script, nor a symbolic link to one.
\<close>

theorem non_sh_untouched:
  assumes "map_of (links fs) p = Some d" and "\<not> matches_sh (last p)"
    and "\<forall>q d'. matches_sh (last q) \<longrightarrow> map_of (links fs) q = Some d' \<longrightarrow> \<not> d_symlink d'
           \<longrightarrow> d_ino d' \<noteq> d_ino d"
  shows "p \<notin> set (rglob_sh fs) \<and> stat_path (scripts_after os_name fs) p = stat_path fs p"
proof
  from assms(2) show "p \<notin> set (rglob_sh fs)" by (auto dest: rglob_sh_matches)
  have "\<not> updates fs (d_ino d) q" if "q \<in> set (rglob_sh fs)" for q
    using assms(3) rglob_sh_matches [OF that]
    by (auto simp: updates_def split: option.splits)
  then have "inodes (scripts_after os_name fs) (d_ino d) = inodes fs (d_ino d)"
    by (auto simp: scripts_after_inode)
  with assms(1) show "stat_path (scripts_after os_name fs) p = stat_path fs p"
    by (simp add: stat_path_def)
qed

text \<open>Two files of their own: \<open>tool.sh\<close> gets the new mode and \<open>tool\<close> keeps its mode.\<close>

definition separate_scripts :: scripts_fs where
  "separate_scripts =
     \<lparr>links = [([''tool.sh''], \<lparr>d_symlink = False, d_ino = 0, d_chmod_ok = True\<rparr>),
               ([''tool''], \<lparr>d_symlink = False, d_ino = 1, d_chmod_ok = True\<rparr>)],
      inodes = (\<lambda>_. demo_inode)\<rparr>"

theorem non_sh_untouched_witness:
  "\<not> matches_sh (last [''tool''])
   \<and> stat_path separate_scripts [''tool''] = Some demo_script
   \<and> stat_path (scripts_after ''posix'' separate_scripts) [''tool''] = Some demo_script
   \<and> [''tool''] \<notin> set (rglob_sh separate_scripts)"
proof -
  have s: "\<not> matches_sh (last [''tool''])" by (simp add: matches_sh_def suffix_def)
  have d: "map_of (links separate_scripts) [''tool'']
      = Some \<lparr>d_symlink = False, d_ino = 1, d_chmod_ok = True\<rparr>"
    by (simp add: separate_scripts_def)
  have a: "\<forall>q d'. matches_sh (last q) \<longrightarrow> map_of (links separate_scripts) q = Some d'
      \<longrightarrow> \<not> d_symlink d' \<longrightarrow> d_ino d' \<noteq> d_ino \<lparr>d_symlink = False, d_ino = 1, d_chmod_ok = True\<rparr>"
    using s by (auto simp: separate_scripts_def split: if_splits)
  have v: "stat_path separate_scripts [''tool''] = Some demo_script"
    by (simp add: stat_path_def separate_scripts_def demo_script_def demo_inode_def)
  from non_sh_untouched [OF d s a, of "''posix''"] s v show ?thesis by simp
qed

section \<open>Agent loop of \<open>init\<close>\<close>

definition AGENT_DIRECTORY_MAP :: "(string \<times> string) list" where
  "AGENT_DIRECTORY_MAP =
     [(''claude'', ''.claude/''), (''gemini'', ''.gemini/''), (''cursor'', ''.cursor/''),
      (''qwen'', ''.qwen/''), (''opencode'', ''.opencode/''), (''codex'', ''.codex/''),
      (''windsurf'', ''.windsurf/''), (''kilocode'', ''.kilocode/''),
      (''auggie'', ''.augment/''), (''copilot'', ''.github/''), (''roo'', ''.roo/'')]"

text \<open>\<open>Path(value).parts\<close> for POSIX paths: the root \<open>/\<close> if the string starts with one,
  then the components between slashes, empty components and \<open>.\<close> dropped.\<close>

fun split_slash :: "string \<Rightarrow> string \<Rightarrow> string list" where
  "split_slash acc [] = [rev acc]"
| "split_slash acc (c # cs) =
     (if c = CHR ''/'' then rev acc # split_slash [] cs else split_slash (c # acc) cs)"

definition path_parts :: "string \<Rightarrow> string list" where
  "path_parts v =
     (if prefix ''/'' v then [''/''] else []) @
     filter (\<lambda>c. c \<noteq> [] \<and> c \<noteq> ''.'') (split_slash [] v)"

definition AGENT_ROOT_NAMES :: "string \<Rightarrow> string option" where
  "AGENT_ROOT_NAMES =
     map_of (List.map_filter
       (\<lambda>(key, p). case path_parts p of [] \<Rightarrow> None | x # _ \<Rightarrow> Some (key, x))
       AGENT_DIRECTORY_MAP)"

text \<open>Python truthiness of \<open>AGENT_ROOT_NAMES.get(ai_key)\<close>.\<close>

definition truthy :: "string option \<Rightarrow> bool" where
  "truthy r = (case r of None \<Rightarrow> False | Some s \<Rightarrow> s \<noteq> [])"

record call =
  ai_key :: string
  top_level_filter :: "string list option"
  preserve_existing_specs :: bool

definition agent_call :: "nat \<Rightarrow> string \<Rightarrow> bool \<Rightarrow> call" where
  "agent_call idx ai existing_specs_present =
     (let agent_root = AGENT_ROOT_NAMES ai;
          top_level = (if idx > 1 \<and> truthy agent_root then Some [the agent_root] else None);
          preserve_specs =
            (if idx = 1 \<and> existing_specs_present then True
             else if idx > 1 \<and> \<not> truthy agent_root then True
             else False)
      in \<lparr>ai_key = ai, top_level_filter = top_level, preserve_existing_specs = preserve_specs\<rparr>)"

text \<open>
  The loop over \<open>selected_ais\<close>. \<open>run\<close> stands for \<open>download_and_extract_template\<close> on the
  project tree (\<open>None\<close>: it raised, which leaves the loop), \<open>specs_exists\<close> for
  \<open>(project_path / ".specs").exists()\<close>. The calls made are collected in order.
\<close>

fun agent_loop ::
  "('s \<Rightarrow> call \<Rightarrow> 's option) \<Rightarrow> ('s \<Rightarrow> bool) \<Rightarrow> nat \<Rightarrow> string list \<Rightarrow> bool \<Rightarrow> 's
     \<Rightarrow> call list \<times> 's option" where
  "agent_loop run specs_exists idx [] existing st = ([], Some st)"
| "agent_loop run specs_exists idx (ai # rest) existing st =
     (let c = agent_call idx ai existing in
        case run st c of
          None \<Rightarrow> ([c], None)
        | Some st' \<Rightarrow>
            (let (cs, res) =
               agent_loop run specs_exists (idx + 1) rest (existing \<or> specs_exists st') st'
             in (c # cs, res)))"

definition init_agents ::
  "('s \<Rightarrow> call \<Rightarrow> 's option) \<Rightarrow> ('s \<Rightarrow> bool) \<Rightarrow> string list \<Rightarrow> 's \<Rightarrow> call list \<times> 's option" where
  "init_agents run specs_exists selected_ais st =
     agent_loop run specs_exists 1 selected_ais (specs_exists st) st"

subsection \<open>The flag passed to each agent\<close>

text \<open>The flag only matters for the call with index 1.\<close>

lemma agent_call_later: "idx > 1 \<Longrightarrow> agent_call idx ai e1 = agent_call idx ai e2"
  by (simp add: agent_call_def)

lemma agent_loop_nth:
  "j < length (fst (agent_loop run ex idx ais existing st)) \<Longrightarrow> idx \<ge> 1 \<Longrightarrow>
   fst (agent_loop run ex idx ais existing st) ! j = agent_call (idx + j) (ais ! j) (j = 0 \<and> existing)"
proof (induction ais arbitrary: idx existing st j)
  case Nil
  then show ?case by simp
next
  case (Cons ai rest)
  show ?case
  proof (cases j)
    case 0
    then show ?thesis by (simp add: Let_def case_prod_beta split: option.splits)
  next
    case (Suc k)
    show ?thesis
    proof (cases "run st (agent_call idx ai existing)")
      case None
      with Cons.prems Suc show ?thesis by (simp add: Let_def)
    next
      case (Some st')
      let ?e = "existing \<or> ex st'"
      from Cons.prems Suc Some have k: "k < length (fst (agent_loop run ex (idx + 1) rest ?e st'))"
        by (simp add: Let_def case_prod_beta)
      have "fst (agent_loop run ex (idx + 1) rest ?e st') ! k
             = agent_call (idx + 1 + k) (rest ! k) (k = 0 \<and> ?e)"
        using k Cons.prems(2) by (intro Cons.IH) simp_all
      also have "\<dots> = agent_call (idx + j) ((ai # rest) ! j) (j = 0 \<and> existing)"
        using Suc Cons.prems(2) by (simp add: agent_call_later [of "Suc (idx + k)" _ "k = 0 \<and> ?e" False])
      finally show ?thesis using Suc Some by (simp add: Let_def case_prod_beta)
    qed
  qed
qed

text \<open>
  Claim C4. The flag \<open>preserve_existing_specs\<close> passed to the call of the agent at position
  \<open>i\<close> (counted from 0) of the selection is true exactly when it is the first agent and
  \<open>.specs\<close> exists when the loop starts, or it is a later agent for which
  \<open>AGENT_ROOT_NAMES\<close> gives no root, which is exactly when that later agent runs without a
  top-level filter. The running flag \<open>existing_specs_present\<close> is updated after every agent
  but read only for the first.
\<close>

theorem preserve_flag_rule:
  assumes "i < length (fst (init_agents run specs_exists selected_ais st))"
  shows "(preserve_existing_specs (fst (init_agents run specs_exists selected_ais st) ! i) \<longleftrightarrow>
           (i = 0 \<and> specs_exists st) \<or> (i > 0 \<and> \<not> truthy (AGENT_ROOT_NAMES (selected_ais ! i))))
       \<and> (preserve_existing_specs (fst (init_agents run specs_exists selected_ais st) ! i) \<longleftrightarrow>
           (i = 0 \<and> specs_exists st) \<or>
           (i > 0 \<and> top_level_filter (fst (init_agents run specs_exists selected_ais st) ! i) = None))"
proof -
  have "fst (init_agents run specs_exists selected_ais st) ! i
          = agent_call (1 + i) (selected_ais ! i) (i = 0 \<and> specs_exists st)"
    using assms unfolding init_agents_def by (intro agent_loop_nth) simp_all
  then show ?thesis by (auto simp: agent_call_def Let_def)
qed


theorem preserve_flag_rule_witness:
  "preserve_existing_specs (fst (init_agents (\<lambda>s c. Some s) (\<lambda>s. s) [''claude'', ''copilot''] True) ! 0)
   \<and> \<not> preserve_existing_specs (fst (init_agents (\<lambda>s c. Some s) (\<lambda>s. s) [''claude'', ''copilot''] True) ! 1)"
proof -
  have l: "length (fst (init_agents (\<lambda>s c. Some s) (\<lambda>s. s) [''claude'', ''copilot''] True)) = 2"
    by (simp add: init_agents_def Let_def case_prod_beta)
  have t: "truthy (AGENT_ROOT_NAMES ''copilot'')"
    by (simp add: truthy_def AGENT_ROOT_NAMES_def AGENT_DIRECTORY_MAP_def map_filter_def path_parts_def)
  show ?thesis
    using preserve_flag_rule [of 0 "\<lambda>s c. Some s" "\<lambda>s. s" "[''claude'', ''copilot'']" True]
      preserve_flag_rule [of 1 "\<lambda>s c. Some s" "\<lambda>s. s" "[''claude'', ''copilot'']" True] l t
    by simp
qed

section \<open>Directory trees\<close>

text \<open>
  A directory tree as the pipeline sees it: a file with its content, or a directory with
  its entries in the order \<open>iterdir()\<close> yields them. \<open>map_of\<close> looks a name up.
\<close>

datatype node = File string | Dir "(string \<times> node) list"

type_synonym entries = "(string \<times> node) list"

definition is_dir_in :: "entries \<Rightarrow> string \<Rightarrow> bool" where
  "is_dir_in es n = (case map_of es n of Some (Dir _) \<Rightarrow> True | _ \<Rightarrow> False)"

definition is_file_in :: "entries \<Rightarrow> string \<Rightarrow> bool" where
  "is_file_in es n = (case map_of es n of Some (File _) \<Rightarrow> True | _ \<Rightarrow> False)"

section \<open>Archive Extractor: the flatten rule\<close>

text \<open>
  \<open>extracted_items\<close> are the top-level entries of the payload root (the staging directory
  or the local template directory). The result is the entries of the payload root that is
  merged, with \<open>flatten_applied\<close>.
\<close>

definition flatten_payload :: "entries \<Rightarrow> entries \<times> bool" where
  "flatten_payload extracted_items =
     (case extracted_items of
        [(name, Dir children)] \<Rightarrow> (children, True)
      | _ \<Rightarrow> (extracted_items, False))"

text \<open>
  Claim C5. When the payload root has exactly one top-level entry and it is a directory,
  the root that is merged is that child; with several entries, with none, or with a single
  file, it is the root itself. The rule is applied once: a directory that again wraps a
  single directory is not unwrapped further.
\<close>

theorem flatten_rule:
  "(\<forall>name children. extracted_items = [(name, Dir children)] \<longrightarrow>
       flatten_payload extracted_items = (children, True))
   \<and> (length extracted_items \<noteq> 1 \<longrightarrow> flatten_payload extracted_items = (extracted_items, False))
   \<and> (\<forall>name content. extracted_items = [(name, File content)] \<longrightarrow>
       flatten_payload extracted_items = (extracted_items, False))
   \<and> (\<forall>outer inner children. extracted_items = [(outer, Dir [(inner, Dir children)])] \<longrightarrow>
       fst (flatten_payload extracted_items) = [(inner, Dir children)])"
  by (auto simp: flatten_payload_def split: list.splits node.splits)

theorem flatten_rule_witness:
  "flatten_payload [(''spec-kit'', Dir [(''.specs'', Dir []), (''README.md'', File ''x'')])]
     = ([(''.specs'', Dir []), (''README.md'', File ''x'')], True)
   \<and> flatten_payload [(''a'', Dir []), (''b'', Dir [])] = ([(''a'', Dir []), (''b'', Dir [])], False)
   \<and> flatten_payload [] = ([], False)
   \<and> flatten_payload [(''a.txt'', File ''x'')] = ([(''a.txt'', File ''x'')], False)
   \<and> fst (flatten_payload [(''o'', Dir [(''i'', Dir [(''f'', File ''x'')])])]) = [(''i'', Dir [(''f'', File ''x'')])]"
  using flatten_rule [of "[(''spec-kit'', Dir [(''.specs'', Dir []), (''README.md'', File ''x'')])]"]
    flatten_rule [of "[(''a'', Dir []), (''b'', Dir [])]"]
    flatten_rule [of "[]"]
    flatten_rule [of "[(''a.txt'', File ''x'')]"]
    flatten_rule [of "[(''o'', Dir [(''i'', Dir [(''f'', File ''x'')])])]"]
  by simp

section \<open>Source Resolver\<close>

subsection \<open>Release asset selection in \<open>download_template_from_github\<close>\<close>

record asset =
  asset_name :: string
  browser_download_url :: string
  asset_size :: nat

datatype resolve_error = NoMatchingAsset "string list"

text \<open>Python's \<open>pattern in name\<close>.\<close>

fun is_substring :: "string \<Rightarrow> string \<Rightarrow> bool" where
  "is_substring pat [] = (pat = [])"
| "is_substring pat (c # cs) = (prefix pat (c # cs) \<or> is_substring pat cs)"

definition asset_pattern :: "string \<Rightarrow> string \<Rightarrow> string" where
  "asset_pattern ai_assistant script_type =
     ''spec-kit-template-'' @ ai_assistant @ ''-'' @ script_type"

definition asset_matches :: "string \<Rightarrow> string \<Rightarrow> asset \<Rightarrow> bool" where
  "asset_matches ai_assistant script_type a =
     (is_substring (asset_pattern ai_assistant script_type) (asset_name a)
      \<and> suffix ''.zip'' (asset_name a))"

definition select_asset :: "string \<Rightarrow> string \<Rightarrow> asset list \<Rightarrow> resolve_error + asset" where
  "select_asset ai_assistant script_type assets =
     (let matching_assets = filter (asset_matches ai_assistant script_type) assets
      in case matching_assets of
           a # _ \<Rightarrow> Inr a
         | [] \<Rightarrow> Inl (NoMatchingAsset (map asset_name assets)))"

lemma is_substring_iff: "is_substring pat s \<longleftrightarrow> sublist pat s"
  by (induction s) (auto simp: sublist_Cons_right)

lemma asset_matches_iff:
  "asset_matches ai script a \<longleftrightarrow>
     sublist (''spec-kit-template-'' @ ai @ ''-'' @ script) (asset_name a) \<and> suffix ''.zip'' (asset_name a)"
  by (simp add: asset_matches_def asset_pattern_def is_substring_iff)

definition foreign_asset :: asset where
  "foreign_asset = \<lparr>asset_name = ''my-template-claude-sh.zip'', browser_download_url = ''u'', asset_size = 1\<rparr>"

text \<open>
  Claim C7 as stated fails: an asset whose name holds \<open>template-claude-sh\<close> and ends in
  \<open>.zip\<close> is not selected unless the name holds the longer \<open>spec-kit-template-claude-sh\<close>.
\<close>

theorem asset_substring_counterexample:
  "is_substring ''template-claude-sh'' (asset_name foreign_asset)
   \<and> suffix ''.zip'' (asset_name foreign_asset)
   \<and> select_asset ''claude'' ''sh'' [foreign_asset] = Inl (NoMatchingAsset [''my-template-claude-sh.zip''])"
  by (simp add: foreign_asset_def select_asset_def asset_matches_def asset_pattern_def suffix_def prefix_def)

text \<open>
  Claim C7, amended. An asset matches when its name holds the substring
  \<open>spec-kit-template-<agent>-<script>\<close> and ends in \<open>.zip\<close>. The selected asset is the first
  matching one in listing order; when none matches, resolution fails with the names of all
  the assets of the release.
\<close>

theorem asset_selection:
  "(\<forall>a. asset_matches ai script a \<longleftrightarrow>
        sublist (''spec-kit-template-'' @ ai @ ''-'' @ script) (asset_name a)
        \<and> suffix ''.zip'' (asset_name a))
   \<and> ((\<exists>before a rest. assets = before @ a # rest
        \<and> (\<forall>b \<in> set before. \<not> asset_matches ai script b)
        \<and> asset_matches ai script a
        \<and> select_asset ai script assets = Inr a)
   \<or> ((\<forall>b \<in> set assets. \<not> asset_matches ai script b)
        \<and> select_asset ai script assets = Inl (NoMatchingAsset (map asset_name assets))))"
proof (intro conjI allI)
  fix a
  show "asset_matches ai script a \<longleftrightarrow>
        sublist (''spec-kit-template-'' @ ai @ ''-'' @ script) (asset_name a)
        \<and> suffix ''.zip'' (asset_name a)"
    by (rule asset_matches_iff)
next
  show "(\<exists>before a rest. assets = before @ a # rest
        \<and> (\<forall>b \<in> set before. \<not> asset_matches ai script b)
        \<and> asset_matches ai script a
        \<and> select_asset ai script assets = Inr a)
   \<or> ((\<forall>b \<in> set assets. \<not> asset_matches ai script b)
        \<and> select_asset ai script assets = Inl (NoMatchingAsset (map asset_name assets)))"
  proof (cases "filter (asset_matches ai script) assets")
    case Nil
    then have "\<forall>b \<in> set assets. \<not> asset_matches ai script b"
      by (simp add: filter_empty_conv)
    with Nil show ?thesis by (simp add: select_asset_def)
  next
    case (Cons a ms)
    then obtain before rest where "assets = before @ a # rest"
      "\<forall>b \<in> set before. \<not> asset_matches ai script b" "asset_matches ai script a"
      by (auto simp: filter_eq_Cons_iff)
    with Cons show ?thesis by (auto simp: select_asset_def)
  qed
qed

definition release_asset :: "string \<Rightarrow> asset" where
  "release_asset n = \<lparr>asset_name = n, browser_download_url = ''https://example.invalid/'' @ n, asset_size = 1\<rparr>"

theorem asset_selection_witness:
  "select_asset ''claude'' ''sh''
     [foreign_asset, release_asset ''spec-kit-template-claude-sh-v1.zip'',
      release_asset ''spec-kit-template-claude-sh-v2.zip'']
     = Inr (release_asset ''spec-kit-template-claude-sh-v1.zip'')
   \<and> select_asset ''claude'' ''sh'' [foreign_asset]
     = Inl (NoMatchingAsset [''my-template-claude-sh.zip''])"
  using asset_selection [of "''claude''" "''sh''"
      "[foreign_asset, release_asset ''spec-kit-template-claude-sh-v1.zip'',
        release_asset ''spec-kit-template-claude-sh-v2.zip'']"]
    asset_selection [of "''claude''" "''sh''" "[foreign_asset]"]
  by (simp add: foreign_asset_def release_asset_def select_asset_def asset_matches_def
      asset_pattern_def suffix_def prefix_def)

subsection \<open>Local discovery: \<open>find_agent_template_variant\<close>\<close>

text \<open>
  \<open>base_dir.glob(pattern)\<close> on the entries of \<open>base_dir\<close>. The agent and the script type
  come from the fixed choice tables and hold no glob metacharacter, so a pattern without
  \<open>*\<close> matches the entry of that very name, \<open>P-*\<close> the names that start with \<open>P-\<close>, and
  \<open>P-*.zip\<close> the names that start with \<open>P-\<close> and end, after it, with \<open>.zip\<close>.
\<close>

definition glob_exact :: "entries \<Rightarrow> string \<Rightarrow> string list" where
  "glob_exact base pat = filter (\<lambda>n. n = pat) (map fst base)"

definition glob_prefix :: "entries \<Rightarrow> string \<Rightarrow> string list" where
  "glob_prefix base pre = filter (\<lambda>n. prefix pre n) (map fst base)"

definition glob_prefix_suffix :: "entries \<Rightarrow> string \<Rightarrow> string \<Rightarrow> string list" where
  "glob_prefix_suffix base pre suf =
     filter (\<lambda>n. prefix pre n \<and> suffix suf (drop (length pre) n)) (map fst base)"

text \<open>\<open>for candidate in reversed(sorted(candidates)): if ok(candidate): return candidate\<close>\<close>

definition last_match :: "(string \<Rightarrow> bool) \<Rightarrow> string list \<Rightarrow> string option" where
  "last_match ok candidates = List.find ok (rev (sort candidates))"

definition find_agent_template_variant :: "entries \<Rightarrow> string \<Rightarrow> string \<Rightarrow> string option" where
  "find_agent_template_variant base agent script_type =
     (let d = ''sdd-'' @ agent @ ''-package-'' @ script_type;
          z = ''spec-kit-template-'' @ agent @ ''-'' @ script_type
      in case last_match (is_dir_in base) (glob_exact base d) of
           Some c \<Rightarrow> Some c
         | None \<Rightarrow>
        (case last_match (is_dir_in base) (glob_prefix base (d @ ''-'')) of
           Some c \<Rightarrow> Some c
         | None \<Rightarrow>
        (case last_match (is_file_in base) (glob_exact base (z @ ''.zip'')) of
           Some c \<Rightarrow> Some c
         | None \<Rightarrow> last_match (is_file_in base) (glob_prefix_suffix base (z @ ''-'') ''.zip''))))"

lemma find_rev_sorted:
  "sorted ys \<Longrightarrow>
   List.find ok (rev ys) = (if \<exists>x \<in> set ys. ok x then Some (Max {x \<in> set ys. ok x}) else None)"
proof (induction ys rule: rev_induct)
  case Nil
  then show ?case by simp
next
  case (snoc y ys)
  then have le: "\<forall>x \<in> set ys. x \<le> y" and s: "sorted ys"
    by (auto simp: sorted_append)
  show ?case
  proof (cases "ok y")
    case True
    have "Max {x \<in> set (ys @ [y]). ok x} = y"
      using True le by (intro Max_eqI) auto
    with True show ?thesis by auto
  next
    case False
    then have "{x \<in> set (ys @ [y]). ok x} = {x \<in> set ys. ok x}" by auto
    with False snoc.IH [OF s] show ?thesis by auto
  qed
qed

lemma last_match_Max:
  "last_match ok cands =
     (if \<exists>x \<in> set cands. ok x then Some (Max {x \<in> set cands. ok x}) else None)"
  unfolding last_match_def using find_rev_sorted [of "sort cands" ok] by simp

lemma last_match_exact:
  "last_match ok (glob_exact base pat) = (if pat \<in> fst ` set base \<and> ok pat then Some pat else None)"
proof -
  have "{x \<in> set (glob_exact base pat). ok x} = (if pat \<in> fst ` set base \<and> ok pat then {pat} else {})"
    by (auto simp: glob_exact_def)
  then show ?thesis by (auto simp: last_match_Max glob_exact_def)
qed

lemma is_dir_in_dom: "is_dir_in base n \<Longrightarrow> n \<in> fst ` set base"
  by (auto simp: is_dir_in_def split: option.splits dest: map_of_SomeD intro: rev_image_eqI)

lemma is_file_in_dom: "is_file_in base n \<Longrightarrow> n \<in> fst ` set base"
  by (auto simp: is_file_in_def split: option.splits dest: map_of_SomeD intro: rev_image_eqI)

text \<open>The candidates with a suffix after the exact name: directories
  \<open>sdd-<agent>-package-<script>-*\<close> and files \<open>spec-kit-template-<agent>-<script>-*.zip\<close>.\<close>

definition versioned_dirs :: "entries \<Rightarrow> string \<Rightarrow> string \<Rightarrow> string set" where
  "versioned_dirs base agent script_type =
     {n. is_dir_in base n \<and> prefix (''sdd-'' @ agent @ ''-package-'' @ script_type @ ''-'') n}"

definition versioned_zips :: "entries \<Rightarrow> string \<Rightarrow> string \<Rightarrow> string set" where
  "versioned_zips base agent script_type =
     {n. is_file_in base n \<and> (\<exists>v. n = ''spec-kit-template-'' @ agent @ ''-'' @ script_type @ ''-'' @ v @ ''.zip'')}"

lemma dirs_set:
  "{x \<in> set (glob_prefix base (''sdd-'' @ agent @ ''-package-'' @ script_type @ ''-'')). is_dir_in base x}
     = versioned_dirs base agent script_type"
  by (auto simp: glob_prefix_def versioned_dirs_def dest: is_dir_in_dom)

lemma zips_set:
  "{x \<in> set (glob_prefix_suffix base (''spec-kit-template-'' @ agent @ ''-'' @ script_type @ ''-'') ''.zip'').
       is_file_in base x}
     = versioned_zips base agent script_type"
  apply (auto simp: glob_prefix_suffix_def versioned_zips_def dest: is_file_in_dom)
  apply (auto simp: prefix_def suffix_def)
  done

lemma finite_versioned: "finite (versioned_dirs base a s)" "finite (versioned_zips base a s)"
proof -
  have "versioned_dirs base a s \<subseteq> fst ` set base" "versioned_zips base a s \<subseteq> fst ` set base"
    by (auto simp: versioned_dirs_def versioned_zips_def dest: is_dir_in_dom is_file_in_dom)
  then show "finite (versioned_dirs base a s)" "finite (versioned_zips base a s)"
    by (auto intro: finite_subset)
qed

lemma last_match_dirs:
  "last_match (is_dir_in base) (glob_prefix base (''sdd-'' @ agent @ ''-package-'' @ script_type @ ''-''))
     = (if versioned_dirs base agent script_type = {} then None
        else Some (Max (versioned_dirs base agent script_type)))"
  unfolding last_match_Max dirs_set [symmetric] by auto

lemma last_match_zips:
  "last_match (is_file_in base)
      (glob_prefix_suffix base (''spec-kit-template-'' @ agent @ ''-'' @ script_type @ ''-'') ''.zip'')
     = (if versioned_zips base agent script_type = {} then None
        else Some (Max (versioned_zips base agent script_type)))"
  unfolding last_match_Max zips_set [symmetric] by auto

text \<open>
  Claim C8, amended. Discovery looks for the directory named exactly
  \<open>sdd-<agent>-package-<script>\<close>; failing that, for the lexicographically last directory
  named \<open>sdd-<agent>-package-<script>-<suffix>\<close>; only when there is no such directory, for
  the file named exactly \<open>spec-kit-template-<agent>-<script>.zip\<close>; failing that, for the
  lexicographically last file named \<open>spec-kit-template-<agent>-<script>-<suffix>.zip\<close>;
  otherwise it finds nothing. An exact name wins over a suffixed one and a directory over
  any archive.
\<close>

theorem variant_discovery:
  fixes base agent script_type
  defines "d \<equiv> ''sdd-'' @ agent @ ''-package-'' @ script_type"
    and "z \<equiv> ''spec-kit-template-'' @ agent @ ''-'' @ script_type @ ''.zip''"
    and "ds \<equiv> versioned_dirs base agent script_type"
    and "zs \<equiv> versioned_zips base agent script_type"
  shows "(is_dir_in base d \<longrightarrow> find_agent_template_variant base agent script_type = Some d)
    \<and> (\<not> is_dir_in base d \<and> ds \<noteq> {} \<longrightarrow>
         find_agent_template_variant base agent script_type = Some (Max ds))
    \<and> (\<not> is_dir_in base d \<and> ds = {} \<and> is_file_in base z \<longrightarrow>
         find_agent_template_variant base agent script_type = Some z)
    \<and> (\<not> is_dir_in base d \<and> ds = {} \<and> \<not> is_file_in base z \<and> zs \<noteq> {} \<longrightarrow>
         find_agent_template_variant base agent script_type = Some (Max zs))
    \<and> (\<not> is_dir_in base d \<and> ds = {} \<and> \<not> is_file_in base z \<and> zs = {} \<longrightarrow>
         find_agent_template_variant base agent script_type = None)"
  using last_match_dirs [of base agent script_type] last_match_zips [of base agent script_type]
  unfolding d_def z_def ds_def zs_def find_agent_template_variant_def Let_def last_match_exact
  by (auto dest: is_dir_in_dom is_file_in_dom)

definition two_dirs :: entries where
  "two_dirs = [(''sdd-claude-package-sh'', Dir []), (''sdd-claude-package-sh-v2'', Dir [])]"


text \<open>
  Claim C8 as stated fails: with the directories \<open>sdd-claude-package-sh\<close> and
  \<open>sdd-claude-package-sh-v2\<close> the exact name is returned, not the lexicographically last
  match; and a directory or an archive with another text before \<open>-claude-package-sh\<close> or
  \<open>-template-claude-sh.zip\<close> is not found.
\<close>

theorem variant_discovery_counterexample:
  "is_dir_in two_dirs ''sdd-claude-package-sh'' \<and> is_dir_in two_dirs ''sdd-claude-package-sh-v2''
   \<and> ''sdd-claude-package-sh'' < ''sdd-claude-package-sh-v2''
   \<and> find_agent_template_variant two_dirs ''claude'' ''sh'' = Some ''sdd-claude-package-sh''
   \<and> find_agent_template_variant [(''my-claude-package-sh'', Dir [])] ''claude'' ''sh'' = None
   \<and> find_agent_template_variant [(''my-template-claude-sh.zip'', File ''PK'')] ''claude'' ''sh'' = None"
  by (simp add: two_dirs_def is_dir_in_def is_file_in_def find_agent_template_variant_def last_match_def
      glob_exact_def glob_prefix_def glob_prefix_suffix_def)

theorem variant_discovery_witness:
  "find_agent_template_variant two_dirs ''claude'' ''sh'' = Some ''sdd-claude-package-sh''"
  using variant_discovery [of two_dirs "''claude''" "''sh''"]
  by (simp add: two_dirs_def is_dir_in_def)

section \<open>Merge Engine\<close>

text \<open>
  The payload is a tree of its own, read and never written: a staging directory filled from
  the archive, or a template directory, which shares no file with the project. It is resolved
  with \<open>lookup\<close>.
\<close>

fun lookup :: "node \<Rightarrow> path \<Rightarrow> node option" where
  "lookup t [] = Some t"
| "lookup (File c) (n # p) = None"
| "lookup (Dir es) (n # p) = (case map_of es n of None \<Rightarrow> None | Some ch \<Rightarrow> lookup ch p)"

datatype fs_error =
  NotADirectoryError | FileExistsError | IsADirectoryError | FileNotFoundError
  | ShutilError | BadZipFile

text \<open>
  The project is written through names, and a file or a directory of the project may have
  several names: hard links of a file, and symbolic links, which every call of the merge
  follows (\<open>exists\<close>, \<open>is_dir\<close>, \<open>mkdir\<close> with \<open>exist_ok\<close>, \<open>open\<close> for writing, \<open>os.makedirs\<close>).
  The file system is therefore a heap of inodes, numbered by their position: a regular file
  with its content, or a directory whose entries give a name an inode. A second entry for an
  inode is a hard link or a symbolic link to it. Every entry names an inode of the heap
  (\<open>wf_heap\<close>): symbolic links that lead nowhere are not represented.
\<close>

type_synonym ino = nat

datatype obj = Reg string | Folder "(string \<times> ino) list"

type_synonym heap = "obj list"

definition obj_at :: "heap \<Rightarrow> ino \<Rightarrow> obj option" where
  "obj_at h i = (if i < length h then Some (h ! i) else None)"

definition entry :: "heap \<Rightarrow> ino \<Rightarrow> string \<Rightarrow> ino option" where
  "entry h d n = (case obj_at h d of Some (Folder es) \<Rightarrow> map_of es n | _ \<Rightarrow> None)"

definition wf_heap :: "heap \<Rightarrow> bool" where
  "wf_heap h =
     list_all (\<lambda>x. case x of Reg _ \<Rightarrow> True | Folder es \<Rightarrow> list_all (\<lambda>(n, k). k < length h) es) h"

text \<open>The inode a path leads to from the directory \<open>d\<close>, and what is seen there.\<close>

fun resolve :: "heap \<Rightarrow> ino \<Rightarrow> path \<Rightarrow> ino option" where
  "resolve h d [] = Some d"
| "resolve h d (n # p) = (case entry h d n of None \<Rightarrow> None | Some i \<Rightarrow> resolve h i p)"

datatype seen = SFile string | SDir

definition look :: "heap \<Rightarrow> ino \<Rightarrow> path \<Rightarrow> seen option" where
  "look h d p =
     (case resolve h d p of
        None \<Rightarrow> None
      | Some i \<Rightarrow>
          (case obj_at h i of
             None \<Rightarrow> None
           | Some (Reg c) \<Rightarrow> Some (SFile c)
           | Some (Folder _) \<Rightarrow> Some SDir))"

text \<open>A new inode under the name \<open>n\<close> in the directory \<open>d\<close>.\<close>

definition create :: "obj \<Rightarrow> ino \<Rightarrow> string \<Rightarrow> heap \<Rightarrow> heap option" where
  "create x d n h =
     (case obj_at h d of
        Some (Folder es) \<Rightarrow> Some ((h @ [x])[d := Folder (AList.update n (length h) es)])
      | _ \<Rightarrow> None)"

text \<open>
  \<open>open(dst, "wb")\<close> and the writes that follow, for \<open>dst = d / n\<close>: an existing file is
  truncated and written in place, so that all its names show the new content.
\<close>

definition write_file :: "string \<Rightarrow> ino \<Rightarrow> string \<Rightarrow> heap \<Rightarrow> fs_error + heap" where
  "write_file content d n h =
     (case entry h d n of
        None \<Rightarrow>
          (case create (Reg content) d n h of
             None \<Rightarrow> Inl NotADirectoryError
           | Some h' \<Rightarrow> Inr h')
      | Some i \<Rightarrow>
          (case obj_at h i of
             Some (Reg _) \<Rightarrow> Inr (h[i := Reg content])
           | Some (Folder _) \<Rightarrow> Inl IsADirectoryError
           | None \<Rightarrow> Inl FileNotFoundError))"

text \<open>
  \<open>shutil.copy2(src, dst)\<close> for a source file called \<open>name\<close> and \<open>dst = d / n\<close>. A
  destination that is a directory receives the file under the source's name.
\<close>

definition copy2 :: "string \<Rightarrow> string \<Rightarrow> ino \<Rightarrow> string \<Rightarrow> heap \<Rightarrow> fs_error + heap" where
  "copy2 name content d n h =
     (case entry h d n of
        None \<Rightarrow> write_file content d n h
      | Some i \<Rightarrow>
          (case obj_at h i of
             Some (Folder _) \<Rightarrow> write_file content i name h
           | _ \<Rightarrow> write_file content d n h))"

text \<open>
  The loop of \<open>shutil.copytree(src, dst, dirs_exist_ok=True)\<close> over the entries of \<open>src\<close>,
  into the directory with inode \<open>k\<close>: the error of an entry is recorded and the loop goes on;
  the flag says whether any was recorded (\<open>shutil.Error\<close> is raised at the end). A
  directory entry is copied by the same function, whose \<open>os.makedirs\<close> accepts a directory
  that exists and creates one that does not.
\<close>

function copytree_entries :: "entries \<Rightarrow> ino \<Rightarrow> heap \<Rightarrow> bool \<times> heap" where
  "copytree_entries [] k h = (False, h)"
| "copytree_entries ((name, File c) # rest) k h =
     (case copy2 name c k name h of
        Inl e \<Rightarrow> (True, snd (copytree_entries rest k h))
      | Inr h' \<Rightarrow> copytree_entries rest k h')"
| "copytree_entries ((name, Dir ses) # rest) k h =
     (case entry h k name of
        Some j \<Rightarrow>
          (case obj_at h j of
             Some (Folder _) \<Rightarrow>
               (let (b1, h1) = copytree_entries ses j h;
                    (b2, h2) = copytree_entries rest k h1
                in (b1 \<or> b2, h2))
           | _ \<Rightarrow> (True, snd (copytree_entries rest k h)))
      | None \<Rightarrow>
          (case create (Folder []) k name h of
             None \<Rightarrow> (True, snd (copytree_entries rest k h))
           | Some h0 \<Rightarrow>
               (let (b1, h1) = copytree_entries ses (length h) h0;
                    (b2, h2) = copytree_entries rest k h1
                in (b1 \<or> b2, h2))))"
  by pat_completeness auto
termination
  by (relation "measure (\<lambda>(ses, k, h). size_list (size_prod (\<lambda>_. 0) size) ses)") auto

text \<open>
  \<open>shutil.copytree(src, dst, dirs_exist_ok=flag)\<close> for \<open>dst = d / n\<close>: the error raised (if
  any) and the heap afterwards. The entries of \<open>src\<close> are listed before \<open>dst\<close> is made.
\<close>

definition copytree :: "node \<Rightarrow> ino \<Rightarrow> string \<Rightarrow> bool \<Rightarrow> heap \<Rightarrow> fs_error option \<times> heap" where
  "copytree src d n dirs_exist_ok h =
     (case src of
        File c \<Rightarrow> (Some NotADirectoryError, h)
      | Dir ses \<Rightarrow>
          (case entry h d n of
             Some k \<Rightarrow>
               (case obj_at h k of
                  Some (Folder _) \<Rightarrow>
                    (if dirs_exist_ok
                     then (let (b, h') = copytree_entries ses k h
                           in (if b then Some ShutilError else None, h'))
                     else (Some FileExistsError, h))
                | _ \<Rightarrow> (Some FileExistsError, h))
           | None \<Rightarrow>
               (case create (Folder []) d n h of
                  None \<Rightarrow> (Some NotADirectoryError, h)
                | Some h0 \<Rightarrow>
                    (let (b, h') = copytree_entries ses (length h) h0
                     in (if b then Some ShutilError else None, h')))))"

text \<open>
  \<open>_copytree_preserve(src, dest)\<close> for \<open>dest = d / n\<close>, with the loop over \<open>src.iterdir()\<close>
  as \<open>preserve_children\<close>, into the directory with inode \<open>k\<close>. An exception leaves the loop
  at once; the heap is returned as it stands then.
\<close>

function copytree_preserve :: "node \<Rightarrow> ino \<Rightarrow> string \<Rightarrow> heap \<Rightarrow> fs_error option \<times> heap"
  and preserve_children :: "entries \<Rightarrow> ino \<Rightarrow> heap \<Rightarrow> fs_error option \<times> heap" where
  "copytree_preserve src d n h =
     (case entry h d n of
        None \<Rightarrow> copytree src d n False h
      | Some k \<Rightarrow>
          (case obj_at h k of
             Some (Folder _) \<Rightarrow>
               (case src of
                  File c \<Rightarrow> (Some NotADirectoryError, h)
                | Dir ses \<Rightarrow> preserve_children ses k h)
           | _ \<Rightarrow> (Some FileExistsError, h)))"
| "preserve_children [] k h = (None, h)"
| "preserve_children ((name, Dir ses) # rest) k h =
     (case copytree_preserve (Dir ses) k name h of
        (Some e, h') \<Rightarrow> (Some e, h')
      | (None, h') \<Rightarrow> preserve_children rest k h')"
| "preserve_children ((name, File c) # rest) k h =
     (if entry h k name \<noteq> None then preserve_children rest k h
      else (case copy2 name c k name h of
              Inl e \<Rightarrow> (Some e, h)
            | Inr h' \<Rightarrow> preserve_children rest k h'))"
  by pat_completeness auto
termination
  by (relation "measure (\<lambda>x. case x of
          Inl (src, d, n, h) \<Rightarrow> Suc (size src)
        | Inr (ses, k, h) \<Rightarrow> size_list (size_prod (\<lambda>_. 0) size) ses)") auto

text \<open>The set \<open>filtered_top_level\<close> computed from the argument \<open>top_level_filter\<close>.\<close>

definition first_part :: "string \<Rightarrow> string" where
  "first_part v = (case path_parts v of [] \<Rightarrow> v | p # _ \<Rightarrow> p)"

definition filtered_top_level :: "string list option \<Rightarrow> string list option" where
  "filtered_top_level tlf =
     (case tlf of
        None \<Rightarrow> None
      | Some vs \<Rightarrow>
          (let names = map first_part (filter (\<lambda>v. v \<noteq> []) vs)
           in if names = [] then None else Some names))"

text \<open>
  The loop of \<open>_merge_into_project\<close> over \<open>payload_root.iterdir()\<close>, into the project root
  with inode \<open>r\<close>. \<open>same name\<close> says that \<open>dest_path == item.resolve()\<close> for the item of that
  name (the guard against copying an entry onto itself).
\<close>

fun merge_items ::
  "string list option \<Rightarrow> bool \<Rightarrow> (string \<Rightarrow> bool) \<Rightarrow> entries \<Rightarrow> ino \<Rightarrow> heap
     \<Rightarrow> fs_error option \<times> heap" where
  "merge_items flt preserve same [] r h = (None, h)"
| "merge_items flt preserve same ((name, item) # rest) r h =
     (if flt \<noteq> None \<and> name \<notin> set (the flt) then merge_items flt preserve same rest r h
      else if same name then merge_items flt preserve same rest r h
      else if preserve \<and> name = ''.specs'' \<and> entry h r name \<noteq> None then
        (case copytree_preserve item r name h of
           (Some e, h') \<Rightarrow> (Some e, h')
         | (None, h') \<Rightarrow> merge_items flt preserve same rest r h')
      else
        (case item of
           Dir ses \<Rightarrow>
             (case copytree item r name True h of
                (Some e, h') \<Rightarrow> (Some e, h')
              | (None, h') \<Rightarrow> merge_items flt preserve same rest r h')
         | File c \<Rightarrow>
             (case copy2 name c r name h of
                Inl e \<Rightarrow> (Some e, h)
              | Inr h' \<Rightarrow> merge_items flt preserve same rest r h')))"

text \<open>
  \<open>download_and_extract_template\<close> from the point where the source is resolved. The
  project path leads to a directory (\<open>Some\<close> of its inode) or to nothing: \<open>init\<close> passes the
  current directory, or a path it has checked not to exist and that only this function
  creates. An archive that cannot be read is \<open>TemplateArchive None\<close>. The result is the
  error behind \<open>typer.Exit(1)\<close>, if any, what the project path leads to afterwards, and the
  heap.
\<close>

datatype template_source = LocalTemplateDir entries | TemplateArchive "entries option"

definition extract_and_merge ::
  "ino option \<Rightarrow> bool \<Rightarrow> template_source \<Rightarrow> string list option \<Rightarrow> bool
     \<Rightarrow> (string \<Rightarrow> bool) \<Rightarrow> heap \<Rightarrow> fs_error option \<times> ino option \<times> heap" where
  "extract_and_merge project is_current_dir source top_level preserve same h =
     (let (project, h) = (if \<not> is_current_dir \<and> project = None
                          then (Some (length h), h @ [Folder []]) else (project, h))
      in case (case source of LocalTemplateDir es \<Rightarrow> Some es | TemplateArchive z \<Rightarrow> z) of
           None \<Rightarrow> (Some BadZipFile, project, h)
         | Some extracted_items \<Rightarrow>
             (let payload = fst (flatten_payload extracted_items)
              in case project of
                   Some r \<Rightarrow>
                     (let (e, h') = merge_items (filtered_top_level top_level) preserve same payload r h
                      in (e, Some r, h'))
                 | None \<Rightarrow>
                     (let (e, h') = merge_items (filtered_top_level top_level) preserve same payload
                                      (length h) (h @ [Folder []])
                      in (e, if obj_at h' (length h) = Some (Folder []) then None else Some (length h),
                          h'))))"

definition download_and_extract_template ::
  "ino option \<Rightarrow> bool \<Rightarrow> template_source \<Rightarrow> string list option \<Rightarrow> bool
     \<Rightarrow> (string \<Rightarrow> bool) \<Rightarrow> heap \<Rightarrow> fs_error option \<times> ino option \<times> heap" where
  "download_and_extract_template project_path is_current_dir source top_level preserve same h =
     (case extract_and_merge project_path is_current_dir source top_level preserve same h of
        (Some e, project, h') \<Rightarrow>
          (Some e, if \<not> is_current_dir \<and> project \<noteq> None then None else project, h')
      | (None, project, h') \<Rightarrow> (None, project, h'))"

subsection \<open>What an operation may change\<close>

text \<open>
  \<open>grows h h'\<close>: no inode is removed or changes its kind, and no entry is removed or
  given another inode.
\<close>

definition grows :: "heap \<Rightarrow> heap \<Rightarrow> bool" where
  "grows h h' \<longleftrightarrow>
     length h \<le> length h'
     \<and> (\<forall>i c. obj_at h i = Some (Reg c) \<longrightarrow> (\<exists>c'. obj_at h' i = Some (Reg c')))
     \<and> (\<forall>i es. obj_at h i = Some (Folder es) \<longrightarrow> (\<exists>es'. obj_at h' i = Some (Folder es')))
     \<and> (\<forall>i n k. entry h i n = Some k \<longrightarrow> entry h' i n = Some k)"

text \<open>
  \<open>touched F S h h'\<close>: moreover only the files of \<open>F\<close> have another content, only the
  directory slots of \<open>S\<close> (a directory and a name) have another entry, and every new entry
  names a new inode.
\<close>

definition touched :: "ino set \<Rightarrow> (ino \<times> string) set \<Rightarrow> heap \<Rightarrow> heap \<Rightarrow> bool" where
  "touched F S h h' \<longleftrightarrow>
     grows h h'
     \<and> (\<forall>i c. obj_at h i = Some (Reg c) \<longrightarrow> i \<notin> F \<longrightarrow> obj_at h' i = Some (Reg c))
     \<and> (\<forall>i n. i < length h \<longrightarrow> (i, n) \<notin> S \<longrightarrow> entry h' i n = entry h i n)
     \<and> (\<forall>i n k. entry h' i n = Some k \<longrightarrow>
           entry h i n = Some k \<or> (length h \<le> k \<and> k < length h'))"

text \<open>The inodes below the name \<open>n\<close> of the directory \<open>d\<close>, and those from \<open>k\<close> on.\<close>

definition under :: "heap \<Rightarrow> ino \<Rightarrow> string \<Rightarrow> ino set" where
  "under h d n = {j. \<exists>p. resolve h d (n # p) = Some j}"

definition reach :: "heap \<Rightarrow> ino \<Rightarrow> ino set" where
  "reach h k = {j. \<exists>p. resolve h k p = Some j}"

lemma obj_at_lt: "obj_at h i = Some x \<Longrightarrow> i < length h"
  by (auto simp: obj_at_def split: if_splits)

lemma entry_lt: "entry h d n = Some k \<Longrightarrow> d < length h"
  by (auto simp: entry_def dest: obj_at_lt split: option.splits obj.splits)

lemma entry_Folder: "entry h d n = Some k \<Longrightarrow> \<exists>es. obj_at h d = Some (Folder es) \<and> map_of es n = Some k"
  by (auto simp: entry_def split: option.splits obj.splits)

lemma grows_refl: "grows h h"
  by (simp add: grows_def)

lemma grows_trans: "grows a b \<Longrightarrow> grows b c \<Longrightarrow> grows a c"
  unfolding grows_def by (meson le_trans)

lemma touched_grows: "touched F S h h' \<Longrightarrow> grows h h'"
  by (simp add: touched_def)

lemma touched_refl: "touched F S h h"
  by (simp add: touched_def grows_refl)

lemma touched_mono: "touched F S h h' \<Longrightarrow> F \<subseteq> F' \<Longrightarrow> S \<subseteq> S' \<Longrightarrow> touched F' S' h h'"
  unfolding touched_def by blast

lemma touched_trans:
  assumes a: "touched F S h h1" and b: "touched F1 S1 h1 h2"
    and f: "\<And>i. i \<in> F1 \<Longrightarrow> i < length h \<Longrightarrow> i \<in> F"
    and s: "\<And>i n. (i, n) \<in> S1 \<Longrightarrow> i < length h \<Longrightarrow> (i, n) \<in> S"
  shows "touched F S h h2"
  unfolding touched_def
proof (intro conjI allI impI)
  from a b show "grows h h2" by (auto simp: touched_def intro: grows_trans)
next
  fix i c
  assume i: "obj_at h i = Some (Reg c)" "i \<notin> F"
  with a have "obj_at h1 i = Some (Reg c)" by (simp add: touched_def)
  moreover from i f have "i \<notin> F1" by (auto dest: obj_at_lt)
  ultimately show "obj_at h2 i = Some (Reg c)" using b by (simp add: touched_def)
next
  fix i n
  assume i: "i < length h" "(i, n) \<notin> S"
  with a have "entry h1 i n = entry h i n" by (simp add: touched_def)
  moreover from i s have "(i, n) \<notin> S1" by auto
  moreover from a i have "i < length h1" by (auto simp: touched_def grows_def)
  ultimately show "entry h2 i n = entry h i n" using b by (simp add: touched_def)
next
  fix i n k
  assume "entry h2 i n = Some k"
  with b have "entry h1 i n = Some k \<or> (length h1 \<le> k \<and> k < length h2)"
    by (simp add: touched_def)
  moreover from a have "entry h1 i n = Some k \<Longrightarrow> entry h i n = Some k \<or> (length h \<le> k \<and> k < length h1)"
    by (simp add: touched_def)
  moreover from a b have "length h \<le> length h1" "length h1 \<le> length h2"
    by (auto simp: touched_def grows_def)
  ultimately show "entry h i n = Some k \<or> (length h \<le> k \<and> k < length h2)" by auto
qed

lemma resolve_grows: "grows h h' \<Longrightarrow> resolve h x p = Some j \<Longrightarrow> resolve h' x p = Some j"
  by (induction p arbitrary: x) (auto simp: grows_def split: option.splits)

lemma resolve_lt: "resolve h x p = Some j \<Longrightarrow> j < length h \<Longrightarrow> x < length h"
  by (cases p) (auto dest: entry_lt split: option.splits)

text \<open>A path that leads to an old inode afterwards led there before.\<close>

lemma resolve_old:
  "touched F S h h' \<Longrightarrow> resolve h' x p = Some j \<Longrightarrow> j < length h \<Longrightarrow> resolve h x p = Some j"
proof (induction p arbitrary: x)
  case Nil
  then show ?case by simp
next
  case (Cons n p)
  from Cons.prems(2) obtain k where k: "entry h' x n = Some k" "resolve h' k p = Some j"
    by (auto split: option.splits)
  from Cons.IH [OF Cons.prems(1) k(2) Cons.prems(3)] have r: "resolve h k p = Some j" .
  from r Cons.prems(3) have "k < length h" by (rule resolve_lt)
  moreover from k(1) Cons.prems(1) have "entry h x n = Some k \<or> length h \<le> k"
    unfolding touched_def by blast
  ultimately have "entry h x n = Some k" by auto
  with r show ?case by simp
qed

lemma under_old: "touched F S h h' \<Longrightarrow> i \<in> under h' d n \<Longrightarrow> i < length h \<Longrightarrow> i \<in> under h d n"
  unfolding under_def using resolve_old by blast

lemma reach_old: "touched F S h h' \<Longrightarrow> i \<in> reach h' k \<Longrightarrow> i < length h \<Longrightarrow> i \<in> reach h k"
  unfolding reach_def using resolve_old by blast

lemma reach_self: "k \<in> reach h k"
  unfolding reach_def by (auto intro: exI [of _ "[]"])

lemma under_reach: "under h k n \<subseteq> reach h k"
  unfolding under_def reach_def by blast

lemma under_child: "entry h d n = Some k \<Longrightarrow> under h d n = reach h k"
  by (auto simp: under_def reach_def)

lemma under_none: "entry h d n = None \<Longrightarrow> under h d n = {}"
  by (auto simp: under_def)

lemma under_under: "entry h d n = Some k \<Longrightarrow> under h k m \<subseteq> under h d n"
  by (auto simp: under_child intro: under_reach [THEN subsetD])

lemma obj_at_update:
  "obj_at (h[i := x]) j = (if j = i \<and> i < length h then Some x else obj_at h j)"
  by (auto simp: obj_at_def)

lemma obj_at_append: "obj_at (h @ [x]) j = (if j = length h then Some x else obj_at h j)"
  by (auto simp: obj_at_def nth_append)

lemma touched_overwrite:
  assumes "obj_at h i = Some (Reg c0)"
  shows "touched {i} {} h (h[i := Reg c])"
proof -
  have ch: "entry (h[i := Reg c]) d n = entry h d n" for d n
    using assms by (auto simp: entry_def obj_at_update)
  show ?thesis
    unfolding touched_def grows_def using assms
    by (auto simp: ch obj_at_update dest: obj_at_lt)
qed

lemma create_SomeD:
  "create x d n h = Some h' \<Longrightarrow>
   \<exists>es. obj_at h d = Some (Folder es) \<and> h' = (h @ [x])[d := Folder (AList.update n (length h) es)]"
  by (auto simp: create_def split: option.splits obj.splits)

lemma create_obj_at:
  assumes "create x d n h = Some h'"
  shows "obj_at h' j =
     (if j = d then (case obj_at h d of Some (Folder es) \<Rightarrow> Some (Folder (AList.update n (length h) es))
                     | _ \<Rightarrow> None)
      else if j = length h then Some x else obj_at h j)"
proof -
  from create_SomeD [OF assms] obtain es where es: "obj_at h d = Some (Folder es)"
    and h': "h' = (h @ [x])[d := Folder (AList.update n (length h) es)]" by blast
  from es have "d < length h" by (rule obj_at_lt)
  with es h' show ?thesis by (auto simp: obj_at_update obj_at_append)
qed

lemma create_child:
  assumes "create x d n h = Some h'" and "x = Reg c \<or> x = Folder []"
  shows "entry h' j m = (if j = d \<and> m = n then Some (length h) else entry h j m)"
proof -
  from create_SomeD [OF assms(1)] obtain es where es: "obj_at h d = Some (Folder es)" by blast
  then have d: "d < length h" by (rule obj_at_lt)
  have "obj_at h (length h) = None" by (simp add: obj_at_def)
  with es d assms(2) show ?thesis
    unfolding entry_def create_obj_at [OF assms(1)]
    by (auto simp: update_conv')
qed

lemma create_length: "create x d n h = Some h' \<Longrightarrow> length h' = Suc (length h)"
  by (auto dest: create_SomeD)

lemma touched_create:
  assumes c: "create x d n h = Some h'" and x: "x = Reg c \<or> x = Folder []"
    and new: "entry h d n = None"
  shows "touched {} {(d, n)} h h'"
proof -
  note ch = create_child [OF c x]
  note ob = create_obj_at [OF c]
  from create_SomeD [OF c] obtain es where es: "obj_at h d = Some (Folder es)" by blast
  have "grows h h'"
    unfolding grows_def
  proof (intro conjI allI impI)
    show "length h \<le> length h'" using create_length [OF c] by simp
  next
    fix i c'
    assume "obj_at h i = Some (Reg c')"
    with es show "\<exists>c''. obj_at h' i = Some (Reg c'')"
      by (auto simp: ob dest: obj_at_lt)
  next
    fix i es'
    assume "obj_at h i = Some (Folder es')"
    with es show "\<exists>es''. obj_at h' i = Some (Folder es'')"
      by (auto simp: ob dest: obj_at_lt)
  next
    fix i m k
    assume "entry h i m = Some k"
    with new show "entry h' i m = Some k" by (auto simp: ch)
  qed
  moreover have "obj_at h' i = Some (Reg c')" if "obj_at h i = Some (Reg c')" for i c'
    using that es by (auto simp: ob dest: obj_at_lt)
  moreover have "entry h i m = Some k \<or> (length h \<le> k \<and> k < length h')"
    if "entry h' i m = Some k" for i m k
    using that create_length [OF c] by (auto simp: ch split: if_splits)
  ultimately show ?thesis
    unfolding touched_def by (auto simp: ch)
qed

lemma under_self: "entry h d n = Some i \<Longrightarrow> i \<in> under h d n"
  unfolding under_def by (auto intro: exI [of _ "[]"])

lemma touched_write_file:
  assumes "write_file content d n h = Inr h'"
  shows "touched (under h d n) {(d, n)} h h'"
proof (cases "entry h d n")
  case None
  with assms obtain h0 where "create (Reg content) d n h = Some h0" "h' = h0"
    by (auto simp: write_file_def split: option.splits)
  with None have "touched {} {(d, n)} h h'" by (auto intro: touched_create)
  then show ?thesis by (rule touched_mono) auto
next
  case (Some i)
  with assms obtain c0 where "obj_at h i = Some (Reg c0)" "h' = h[i := Reg content]"
    by (auto simp: write_file_def split: option.splits obj.splits)
  then have "touched {i} {} h h'" by (auto intro: touched_overwrite)
  then show ?thesis by (rule touched_mono) (use under_self [OF Some] in auto)
qed

text \<open>The slots an operation on \<open>d / n\<close> may fill: that one, and those of the directories below it.\<close>

definition slots :: "heap \<Rightarrow> ino \<Rightarrow> string \<Rightarrow> (ino \<times> string) set" where
  "slots h d n = insert (d, n) (under h d n \<times> UNIV)"

lemma touched_copy2:
  assumes "copy2 name content d n h = Inr h'"
  shows "touched (under h d n) (slots h d n) h h'"
proof (cases "entry h d n")
  case None
  with assms have "write_file content d n h = Inr h'" by (simp add: copy2_def)
  from touched_write_file [OF this] show ?thesis
    by (rule touched_mono) (auto simp: slots_def)
next
  case (Some i)
  show ?thesis
  proof (cases "\<exists>es. obj_at h i = Some (Folder es)")
    case True
    with Some assms have "write_file content i name h = Inr h'"
      by (auto simp: copy2_def)
    from touched_write_file [OF this] show ?thesis
      by (rule touched_mono)
        (use under_under [OF Some, of name] under_self [OF Some] in \<open>auto simp: slots_def\<close>)
  next
    case False
    with Some assms have "write_file content d n h = Inr h'"
      by (auto simp: copy2_def split: option.splits obj.splits)
    from touched_write_file [OF this] show ?thesis
      by (rule touched_mono) (auto simp: slots_def)
  qed
qed

lemma touched_copytree_entries:
  "copytree_entries ses k h = (b, h') \<Longrightarrow> touched (reach h k) (reach h k \<times> UNIV) h h'"
proof (induction ses k h arbitrary: b h' rule: copytree_entries.induct)
  case (1 k h)
  then show ?case by (simp add: touched_refl)
next
  case (2 name c rest k h)
  show ?case
  proof (cases "copy2 name c k name h")
    case (Inl e)
    with "2.prems" obtain b0 where "copytree_entries rest k h = (b0, h')"
      by (cases "copytree_entries rest k h") auto
    with Inl show ?thesis by (intro "2.IH"(1))
  next
    case (Inr h1)
    with "2.prems" have r: "copytree_entries rest k h1 = (b, h')" by simp
    from touched_copy2 [OF Inr] have t1: "touched (reach h k) (reach h k \<times> UNIV) h h1"
      by (rule touched_mono)
        (use under_reach [of h k name] reach_self [of k h] in \<open>auto simp: slots_def\<close>)
    from "2.IH"(2) [OF Inr r] have t2: "touched (reach h1 k) (reach h1 k \<times> UNIV) h1 h'" .
    from t1 t2 show ?thesis
      by (rule touched_trans) (auto dest: reach_old [OF t1])
  qed
next
  case (3 name ses rest k h)
  show ?case
  proof (cases "entry h k name")
    case None
    show ?thesis
    proof (cases "create (Folder []) k name h")
      case n: None
      with None "3.prems" obtain b0 where "copytree_entries rest k h = (b0, h')"
        by (cases "copytree_entries rest k h") auto
      with None n show ?thesis by (intro "3.IH"(1))
    next
      case (Some h0)
      obtain b1 h1 where c1: "copytree_entries ses (length h) h0 = (b1, h1)"
        by (cases "copytree_entries ses (length h) h0")
      with None Some "3.prems" obtain b2 where c2: "copytree_entries rest k h1 = (b2, h')"
        by (cases "copytree_entries rest k h1") auto
      from Some None have t0: "touched {} {(k, name)} h h0" by (auto intro: touched_create)
      from "3.IH"(2) [OF None Some c1]
      have t1: "touched (reach h0 (length h)) (reach h0 (length h) \<times> UNIV) h0 h1" .
      have fresh: "i \<notin> reach h0 (length h)" if "i < length h" for i
      proof
        assume "i \<in> reach h0 (length h)"
        from reach_old [OF t0 this that] obtain p where "resolve h (length h) p = Some i"
          by (auto simp: reach_def)
        from resolve_lt [OF this that] show False by simp
      qed
      from t0 t1 have "touched {} {(k, name)} h h1"
        by (rule touched_trans) (use fresh in auto)
      then have t01: "touched (reach h k) (reach h k \<times> UNIV) h h1"
        by (rule touched_mono) (use reach_self [of k h] in auto)
      from "3.IH"(3) [OF None Some refl c1 [symmetric] c2]
      have t2: "touched (reach h1 k) (reach h1 k \<times> UNIV) h1 h'" .
      from t01 t2 show ?thesis
        by (rule touched_trans) (auto dest: reach_old [OF t01])
    qed
  next
    case (Some j)
    show ?thesis
    proof (cases "obj_at h j")
      case None
      with Some "3.prems" obtain b0 where c0: "copytree_entries rest k h = (b0, h')"
        by (cases "copytree_entries rest k h") auto
      with Some None show ?thesis by (intro "3.IH"(4))
    next
      case o: (Some x)
      show ?thesis
      proof (cases x)
        case (Reg c)
        with Some o "3.prems" obtain b0 where c0: "copytree_entries rest k h = (b0, h')"
          by (cases "copytree_entries rest k h") auto
        from "3.IH"(5) [OF Some o Reg c0] show ?thesis .
      next
        case (Folder es)
        obtain b1 h1 where c1: "copytree_entries ses j h = (b1, h1)"
          by (cases "copytree_entries ses j h")
        with Some o Folder "3.prems" obtain b2 where c2: "copytree_entries rest k h1 = (b2, h')"
          by (cases "copytree_entries rest k h1") auto
        from "3.IH"(6) [OF Some o Folder c1] have "touched (reach h j) (reach h j \<times> UNIV) h h1" .
        moreover have sub: "reach h j \<subseteq> reach h k"
          using under_child [OF Some] under_reach [of h k name] by simp
        ultimately have t1: "touched (reach h k) (reach h k \<times> UNIV) h h1"
          by (rule touched_mono) (use sub in auto)
        from "3.IH"(7) [OF Some o Folder refl c1 [symmetric] c2]
        have t2: "touched (reach h1 k) (reach h1 k \<times> UNIV) h1 h'" .
        from t1 t2 show ?thesis
          by (rule touched_trans) (auto dest: reach_old [OF t1])
      qed
    qed
  qed
qed

lemma slots_old:
  "touched F S h h1 \<Longrightarrow> (i, m) \<in> slots h1 d n \<Longrightarrow> i < length h \<Longrightarrow> (i, m) \<in> slots h d n"
  by (auto simp: slots_def dest: under_old)

lemma slots_reach: "slots h k n \<subseteq> reach h k \<times> UNIV"
  using under_reach [of h k n] reach_self [of k h] by (auto simp: slots_def)

text \<open>What is copied into a directory that has just been made touches nothing old.\<close>

lemma touched_fresh:
  assumes t0: "touched F S h h0"
    and t1: "touched (reach h0 (length h)) (reach h0 (length h) \<times> UNIV) h0 h1"
  shows "touched F S h h1"
proof -
  have fresh: "i \<notin> reach h0 (length h)" if "i < length h" for i
  proof
    assume "i \<in> reach h0 (length h)"
    from reach_old [OF t0 this that] obtain p where "resolve h (length h) p = Some i"
      by (auto simp: reach_def)
    from resolve_lt [OF this that] show False by simp
  qed
  from t0 t1 show ?thesis
    by (rule touched_trans) (use fresh in auto)
qed

lemma touched_copytree:
  assumes "copytree src d n flag h = (e, h')"
  shows "touched (under h d n) (slots h d n) h h'"
proof (cases src)
  case (File c)
  with assms show ?thesis by (simp add: copytree_def touched_refl)
next
  case (Dir ses)
  show ?thesis
  proof (cases "entry h d n")
    case None
    show ?thesis
    proof (cases "create (Folder []) d n h")
      case n: None
      with None Dir assms show ?thesis by (simp add: copytree_def touched_refl)
    next
      case (Some h0)
      obtain b h1 where c: "copytree_entries ses (length h) h0 = (b, h1)"
        by (cases "copytree_entries ses (length h) h0")
      with None Some Dir assms have h': "h' = h1" by (simp add: copytree_def)
      from Some None have "touched {} {(d, n)} h h0" by (auto intro: touched_create)
      from this touched_copytree_entries [OF c] have "touched {} {(d, n)} h h1"
        by (rule touched_fresh)
      then show ?thesis unfolding h' by (rule touched_mono) (auto simp: slots_def)
    qed
  next
    case (Some k)
    show ?thesis
    proof (cases "(\<exists>es. obj_at h k = Some (Folder es)) \<and> flag")
      case False
      with Some Dir assms have "h' = h"
        by (auto simp: copytree_def split: option.splits obj.splits)
      then show ?thesis by (simp add: touched_refl)
    next
      case True
      obtain b h1 where c: "copytree_entries ses k h = (b, h1)"
        by (cases "copytree_entries ses k h")
      with True Some Dir assms have h': "h' = h1" by (auto simp: copytree_def)
      from touched_copytree_entries [OF c] show ?thesis
        unfolding h' under_child [OF Some, symmetric]
        by (rule touched_mono) (auto simp: slots_def)
    qed
  qed
qed

text \<open>The preserving copy writes no file that exists.\<close>

lemma touched_preserve:
  "copytree_preserve src d n h = (e, h') \<Longrightarrow> touched {} (slots h d n) h h'"
  "preserve_children ses k h = (e, h') \<Longrightarrow> touched {} (reach h k \<times> UNIV) h h'"
proof (induction src d n h and ses k h arbitrary: e h' and e h'
    rule: copytree_preserve_preserve_children.induct)
  case (1 src d n h)
  show ?case
  proof (cases "entry h d n")
    case None
    with "1.prems" have "copytree src d n False h = (e, h')" by simp
    from touched_copytree [OF this] show ?thesis by (simp add: under_none [OF None])
  next
    case (Some j)
    show ?thesis
    proof (cases "obj_at h j")
      case None
      with Some "1.prems" show ?thesis by (simp add: touched_refl)
    next
      case o: (Some x)
      show ?thesis
      proof (cases x)
        case (Reg c)
        with Some o "1.prems" show ?thesis by (simp add: touched_refl)
      next
        case (Folder es)
        show ?thesis
        proof (cases src)
          case (File c)
          with Some o Folder "1.prems" show ?thesis by (simp add: touched_refl)
        next
          case (Dir ses)
          with Some o Folder "1.prems" have "preserve_children ses j h = (e, h')" by simp
          from "1.IH" [OF Some o Folder Dir this] show ?thesis
            unfolding under_child [OF Some, symmetric]
            by (rule touched_mono) (auto simp: slots_def)
        qed
      qed
    qed
  qed
next
  case (2 k h)
  then show ?case by (simp add: touched_refl)
next
  case (3 name ses rest k h)
  obtain e1 h1 where c1: "copytree_preserve (Dir ses) k name h = (e1, h1)"
    by (cases "copytree_preserve (Dir ses) k name h")
  from "3.IH"(1) [OF c1] have "touched {} (slots h k name) h h1" .
  then have t1: "touched {} (reach h k \<times> UNIV) h h1"
    by (rule touched_mono) (use slots_reach [of h k name] in auto)
  show ?case
  proof (cases e1)
    case (Some a)
    with c1 "3.prems" have "h' = h1" by simp
    with t1 show ?thesis by simp
  next
    case None
    with c1 "3.prems" have "preserve_children rest k h1 = (e, h')"
      by simp
    from "3.IH"(2) [OF c1 [symmetric] None this]
    have "touched {} (reach h1 k \<times> UNIV) h1 h'" .
    with t1 show ?thesis
      by (rule touched_trans) (auto dest: reach_old [OF t1])
  qed
next
  case (4 name c rest k h)
  show ?case
  proof (cases "entry h k name")
    case (Some j)
    with "4.prems" have "preserve_children rest k h = (e, h')" by simp
    with Some show ?thesis by (intro "4.IH"(1)) auto
  next
    case None
    show ?thesis
    proof (cases "copy2 name c k name h")
      case (Inl a)
      with None "4.prems" show ?thesis by (simp add: touched_refl)
    next
      case (Inr h1)
      with None "4.prems" have r: "preserve_children rest k h1 = (e, h')" by simp
      from touched_copy2 [OF Inr] have "touched {} (slots h k name) h h1"
        by (simp add: under_none [OF None])
      then have t1: "touched {} (reach h k \<times> UNIV) h h1"
        by (rule touched_mono) (use slots_reach [of h k name] in auto)
      from None Inr r have "touched {} (reach h1 k \<times> UNIV) h1 h'"
        by (intro "4.IH"(2)) auto
      with t1 show ?thesis
        by (rule touched_trans) (auto dest: reach_old [OF t1])
    qed
  qed
qed

declare copytree_preserve.simps [simp del]

text \<open>The names of the payload that pass the filter.\<close>

definition written :: "string list option \<Rightarrow> entries \<Rightarrow> string set" where
  "written flt items = {n \<in> fst ` set items. flt = None \<or> n \<in> set (the flt)}"

definition kept_names :: "bool \<Rightarrow> string set" where
  "kept_names preserve = (if preserve then {''.specs''} else {})"

lemma written_Cons:
  "written flt ((name, item) # rest) =
     (if flt = None \<or> name \<in> set (the flt) then insert name (written flt rest) else written flt rest)"
  by (auto simp: written_def)

lemma entry_grows: "touched F S h h' \<Longrightarrow> entry h d n \<noteq> None \<Longrightarrow> entry h' d n \<noteq> None"
  by (auto simp: touched_def grows_def)

lemma merge_items_skip:
  "(flt \<noteq> None \<and> name \<notin> set (the flt)) \<or> same name \<Longrightarrow>
   merge_items flt preserve same ((name, item) # rest) r h = merge_items flt preserve same rest r h"
  by auto

lemma merge_items_specs:
  "flt = None \<or> ''.specs'' \<in> set (the flt) \<Longrightarrow> \<not> same ''.specs'' \<Longrightarrow>
   entry h r ''.specs'' \<noteq> None \<Longrightarrow>
   merge_items flt True same ((''.specs'', item) # rest) r h =
     (case copytree_preserve item r ''.specs'' h of
        (Some e, h') \<Rightarrow> (Some e, h')
      | (None, h') \<Rightarrow> merge_items flt True same rest r h')"
  by auto

lemma merge_items_file:
  "flt = None \<or> name \<in> set (the flt) \<Longrightarrow> \<not> same name \<Longrightarrow>
   \<not> (preserve \<and> name = ''.specs'' \<and> entry h r name \<noteq> None) \<Longrightarrow>
   merge_items flt preserve same ((name, File c) # rest) r h =
     (case copy2 name c r name h of
        Inl e \<Rightarrow> (Some e, h)
      | Inr h' \<Rightarrow> merge_items flt preserve same rest r h')"
  by auto

lemma merge_items_dir:
  "flt = None \<or> name \<in> set (the flt) \<Longrightarrow> \<not> same name \<Longrightarrow>
   \<not> (preserve \<and> name = ''.specs'' \<and> entry h r name \<noteq> None) \<Longrightarrow>
   merge_items flt preserve same ((name, Dir ses) # rest) r h =
     (case copytree (Dir ses) r name True h of
        (Some e, h') \<Rightarrow> (Some e, h')
      | (None, h') \<Rightarrow> merge_items flt preserve same rest r h')"
  by auto

lemma merge_items_touched:
  assumes "merge_items flt preserve same items r h = (e, h')"
    and "preserve \<longrightarrow> entry h r ''.specs'' \<noteq> None"
  shows "touched (\<Union>n \<in> written flt items - kept_names preserve. under h r n)
                 (\<Union>n \<in> written flt items. slots h r n) h h'"
  using assms
proof (induction items arbitrary: h)
  case Nil
  then show ?case by (simp add: touched_refl)
next
  case (Cons x rest)
  obtain name item where x: "x = (name, item)" by (cases x)
  let ?F = "\<lambda>h items. \<Union>n \<in> written flt items - kept_names preserve. under h r n"
  let ?S = "\<lambda>h items. \<Union>n \<in> written flt items. slots h r n"
  have sub: "written flt rest \<subseteq> written flt (x # rest)" by (auto simp: written_def)
  have step: "touched (?F h (x # rest)) (?S h (x # rest)) h h'"
    if t1: "touched (?F h (x # rest)) (?S h (x # rest)) h h1"
      and m: "merge_items flt preserve same rest r h1 = (e, h')" for h1
  proof -
    from Cons.prems(2) t1 have "preserve \<longrightarrow> entry h1 r ''.specs'' \<noteq> None"
      by (auto dest: entry_grows)
    from Cons.IH [OF m this] have t2: "touched (?F h1 rest) (?S h1 rest) h1 h'" .
    from t1 t2 show ?thesis
    proof (rule touched_trans)
      fix i
      assume "i \<in> ?F h1 rest" "i < length h"
      then obtain n where n: "n \<in> written flt rest - kept_names preserve" "i \<in> under h1 r n"
        by auto
      from under_old [OF t1 n(2) \<open>i < length h\<close>] n(1) sub show "i \<in> ?F h (x # rest)" by auto
    next
      fix i m
      assume "(i, m) \<in> ?S h1 rest" "i < length h"
      then obtain n where n: "n \<in> written flt rest" "(i, m) \<in> slots h1 r n" by auto
      from slots_old [OF t1 n(2) \<open>i < length h\<close>] n(1) sub show "(i, m) \<in> ?S h (x # rest)" by auto
    qed
  qed
  show ?case
  proof (cases "(flt \<noteq> None \<and> name \<notin> set (the flt)) \<or> same name")
    case True
    with Cons.prems(1) x have "merge_items flt preserve same rest r h = (e, h')"
      by (simp only: merge_items_skip)
    with touched_refl show ?thesis by (rule step)
  next
    case False
    then have w: "name \<in> written flt (x # rest)" by (auto simp: written_def x)
    from False have pass: "flt = None \<or> name \<in> set (the flt)" and ns: "\<not> same name" by auto
    show ?thesis
    proof (cases "preserve \<and> name = ''.specs'' \<and> entry h r name \<noteq> None")
      case True
      from True have pt: "preserve = True" and nm: "name = ''.specs''"
        and ex: "entry h r ''.specs'' \<noteq> None" by auto
      from pass ns have "flt = None \<or> ''.specs'' \<in> set (the flt)" "\<not> same ''.specs''"
        unfolding nm by auto
      note eq = merge_items_specs [where same = same, OF this ex]
      obtain e1 h1 where c: "copytree_preserve item r ''.specs'' h = (e1, h1)"
        by (cases "copytree_preserve item r ''.specs'' h")
      from Cons.prems(1) have m: "(case copytree_preserve item r ''.specs'' h of
            (Some e, h') \<Rightarrow> (Some e, h')
          | (None, h') \<Rightarrow> merge_items flt True same rest r h') = (e, h')"
        unfolding x nm pt eq .
      from touched_preserve(1) [OF c] have t1: "touched (?F h (x # rest)) (?S h (x # rest)) h h1"
        by (rule touched_mono) (use w nm in auto)
      show ?thesis
      proof (cases e1)
        case (Some a)
        with c m have "h' = h1" by simp
        with t1 show ?thesis by simp
      next
        case None
        with c m pt have "merge_items flt preserve same rest r h1 = (e, h')" by simp
        with t1 show ?thesis by (rule step)
      qed
    next
      case np: False
      with Cons.prems(2) have "name \<notin> kept_names preserve" by (auto simp: kept_names_def)
      with w have wf: "name \<in> written flt (x # rest) - kept_names preserve" by simp
      note mf = merge_items_file [where same = same, OF pass ns np]
      note md = merge_items_dir [where same = same, OF pass ns np]
      show ?thesis
      proof (cases item)
        case (File c)
        show ?thesis
        proof (cases "copy2 name c r name h")
          case (Inl a)
          with File Cons.prems(1) x have "h' = h"
            by (simp add: mf del: merge_items.simps)
          then show ?thesis by (simp add: touched_refl)
        next
          case (Inr h1)
          with File Cons.prems(1) x
          have m: "merge_items flt preserve same rest r h1 = (e, h')"
            by (simp add: mf del: merge_items.simps)
          from touched_copy2 [OF Inr] have "touched (?F h (x # rest)) (?S h (x # rest)) h h1"
            by (rule touched_mono) (use w wf in auto)
          then show ?thesis using m by (rule step)
        qed
      next
        case (Dir ses)
        obtain e1 h1 where c: "copytree (Dir ses) r name True h = (e1, h1)"
          by (cases "copytree (Dir ses) r name True h")
        from touched_copytree [OF c] have t1: "touched (?F h (x # rest)) (?S h (x # rest)) h h1"
          by (rule touched_mono) (use w wf in auto)
        show ?thesis
        proof (cases e1)
          case (Some a)
          with c Dir Cons.prems(1) x have "h' = h1"
            by (simp add: md del: merge_items.simps)
          with t1 show ?thesis by simp
        next
          case None
          with c Dir Cons.prems(1) x
          have "merge_items flt preserve same rest r h1 = (e, h')"
            by (simp add: md del: merge_items.simps)
          with t1 show ?thesis by (rule step)
        qed
      qed
    qed
  qed
qed

subsection \<open>Paths that an operation leaves alone\<close>

lemma look_Nil: "look h x [] = (case obj_at h x of None \<Rightarrow> None | Some (Reg c) \<Rightarrow> Some (SFile c)
    | Some (Folder _) \<Rightarrow> Some SDir)"
  by (simp add: look_def)

lemma look_Cons:
  "look h x (n # p) = (case entry h x n of None \<Rightarrow> None | Some k \<Rightarrow> look h k p)"
  by (simp add: look_def split: option.splits)

lemma wf_heap_child:
  assumes "wf_heap h" and "entry h d n = Some k"
  shows "k < length h"
proof -
  from assms(2) obtain es where es: "obj_at h d = Some (Folder es)" "map_of es n = Some k"
    by (auto dest: entry_Folder)
  then have "Folder es \<in> set h" by (auto simp: obj_at_def in_set_conv_nth split: if_splits)
  with assms(1) have "case Folder es of Reg _ \<Rightarrow> True
      | Folder es \<Rightarrow> list_all (\<lambda>(n, k). k < length h) es"
    unfolding wf_heap_def list_all_iff by blast
  then have "list_all (\<lambda>(n, k). k < length h) es" by simp
  with map_of_SomeD [OF es(2)] show ?thesis by (auto simp: list_all_iff)
qed

lemma look_frame:
  assumes t: "touched F S h h'" and wf: "wf_heap h"
  shows "x < length h \<Longrightarrow>
    (\<And>p1 n p2 y. p = p1 @ n # p2 \<Longrightarrow> resolve h x p1 = Some y \<Longrightarrow> (y, n) \<notin> S) \<Longrightarrow>
    (\<And>i. resolve h x p = Some i \<Longrightarrow> i \<notin> F) \<Longrightarrow>
    look h' x p = look h x p"
proof (induction p arbitrary: x)
  case Nil
  from Nil.prems(1) obtain ob where ob: "obj_at h x = Some ob" by (auto simp: obj_at_def)
  from Nil.prems(3) have nf: "x \<notin> F" by simp
  show ?case
  proof (cases ob)
    case (Reg c)
    with ob nf t have "obj_at h' x = Some (Reg c)" by (auto simp: touched_def)
    with ob Reg show ?thesis by (simp add: look_Nil)
  next
    case (Folder es)
    with ob t obtain es' where "obj_at h' x = Some (Folder es')"
      unfolding touched_def grows_def by blast
    with ob Folder show ?thesis by (simp add: look_Nil)
  qed
next
  case (Cons n p)
  from Cons.prems(2) [of "[]" n p x] have "(x, n) \<notin> S" by simp
  with t Cons.prems(1) have ch: "entry h' x n = entry h x n" by (auto simp: touched_def)
  show ?case
  proof (cases "entry h x n")
    case None
    with ch show ?thesis by (simp add: look_Cons)
  next
    case (Some k)
    from wf Some have k: "k < length h" by (rule wf_heap_child)
    have "look h' k p = look h k p"
    proof (rule Cons.IH [OF k])
      fix p1 m p2 y
      assume "p = p1 @ m # p2" "resolve h k p1 = Some y"
      with Some Cons.prems(2) [of "n # p1" m p2 y] show "(y, m) \<notin> S" by simp
    next
      fix i
      assume "resolve h k p = Some i"
      with Some Cons.prems(3) [of i] show "i \<notin> F" by simp
    qed
    with ch Some show ?thesis by (simp add: look_Cons)
  qed
qed

subsection \<open>No clobbering under \<open>.specs\<close>\<close>

text \<open>
  The file or directory at the path \<open>p\<close> has another name that starts with one of the
  top-level names \<open>N\<close>.
\<close>

definition shared :: "heap \<Rightarrow> ino \<Rightarrow> string set \<Rightarrow> path \<Rightarrow> bool" where
  "shared h r N p \<longleftrightarrow> (\<exists>n \<in> N. \<exists>q i. resolve h r (n # q) = Some i \<and> resolve h r p = Some i)"

lemma look_SFile:
  "look h r p = Some (SFile c) \<longleftrightarrow> (\<exists>i. resolve h r p = Some i \<and> obj_at h i = Some (Reg c))"
  by (auto simp: look_def split: option.splits obj.splits)

lemma look_None:
  "look h r p = None \<longleftrightarrow> (\<forall>i. resolve h r p = Some i \<longrightarrow> obj_at h i = None)"
  by (auto simp: look_def split: option.splits obj.splits)

text \<open>
  Claim C1, amended. When the merge runs with \<open>preserve_existing_specs\<close> and the project
  already has \<open>.specs\<close>, every file that stood under \<open>.specs\<close> before the merge stands at the
  same path with the same content afterwards, unless the file has another name, through a hard
  link or a symbolic link, under another top-level entry that the payload provides as well;
  and a file found under \<open>.specs\<close> afterwards stands at a path where nothing stood before or
  where a file stood before, the same file with the same content unless it has such a name.
  This holds for the heap the merge leaves behind whether it returns or raises.
\<close>

theorem no_clobber:
  assumes "entry h r ''.specs'' \<noteq> None"
    and "merge_items flt True same payload r h = (e, h')"
  shows "(\<forall>p c. look h r (''.specs'' # p) = Some (SFile c) \<longrightarrow>
              \<not> shared h r (fst ` set payload - {''.specs''}) (''.specs'' # p) \<longrightarrow>
              look h' r (''.specs'' # p) = Some (SFile c))
       \<and> (\<forall>p c. look h' r (''.specs'' # p) = Some (SFile c) \<longrightarrow>
              look h r (''.specs'' # p) = None
              \<or> (\<exists>c0. look h r (''.specs'' # p) = Some (SFile c0)
                    \<and> (\<not> shared h r (fst ` set payload - {''.specs''}) (''.specs'' # p) \<longrightarrow> c0 = c)))"
proof -
  let ?N = "fst ` set payload - {''.specs''}"
  let ?F = "\<Union>n \<in> written flt payload - kept_names True. under h r n"
  from assms have t: "touched ?F (\<Union>n \<in> written flt payload. slots h r n) h h'"
    by (intro merge_items_touched) auto
  then have g: "grows h h'" by (rule touched_grows)
  have keep: "look h' r (''.specs'' # p) = Some (SFile c)"
    if l: "look h r (''.specs'' # p) = Some (SFile c)" and ns: "\<not> shared h r ?N (''.specs'' # p)"
    for p c
  proof -
    from l obtain i where i: "resolve h r (''.specs'' # p) = Some i" "obj_at h i = Some (Reg c)"
      unfolding look_SFile by blast
    have "i \<notin> ?F"
    proof
      assume "i \<in> ?F"
      then obtain n q where "n \<in> written flt payload" "n \<noteq> ''.specs''"
        "resolve h r (n # q) = Some i"
        by (auto simp: kept_names_def under_def)
      with i(1) ns show False unfolding shared_def written_def by blast
    qed
    with t i(2) have "obj_at h' i = Some (Reg c)" by (auto simp: touched_def)
    moreover from g i(1) have "resolve h' r (''.specs'' # p) = Some i" by (rule resolve_grows)
    ultimately show ?thesis unfolding look_SFile by blast
  qed
  show ?thesis
  proof (intro conjI allI impI)
    fix p c
    assume "look h r (''.specs'' # p) = Some (SFile c)" "\<not> shared h r ?N (''.specs'' # p)"
    then show "look h' r (''.specs'' # p) = Some (SFile c)" by (rule keep)
  next
    fix p c
    assume a: "look h' r (''.specs'' # p) = Some (SFile c)"
    show "look h r (''.specs'' # p) = None
        \<or> (\<exists>c0. look h r (''.specs'' # p) = Some (SFile c0)
              \<and> (\<not> shared h r ?N (''.specs'' # p) \<longrightarrow> c0 = c))"
    proof (cases "look h r (''.specs'' # p)")
      case None
      then show ?thesis by simp
    next
      case (Some s)
      then obtain i ob where i: "resolve h r (''.specs'' # p) = Some i" "obj_at h i = Some ob"
        by (auto simp: look_def split: option.splits)
      from g i(1) have r': "resolve h' r (''.specs'' # p) = Some i" by (rule resolve_grows)
      show ?thesis
      proof (cases ob)
        case (Folder es)
        with i(2) g obtain es' where "obj_at h' i = Some (Folder es')"
          unfolding grows_def by blast
        with r' a show ?thesis by (simp add: look_def)
      next
        case (Reg c0)
        with i have l: "look h r (''.specs'' # p) = Some (SFile c0)" unfolding look_SFile by blast
        from keep [OF l] a have "\<not> shared h r ?N (''.specs'' # p) \<longrightarrow> c0 = c" by auto
        with l show ?thesis by blast
      qed
    qed
  qed
qed

subsection \<open>The top-level filter\<close>

text \<open>With a filter the loop does what it does, without one, on the entries the filter names.\<close>

lemma merge_items_filter:
  "merge_items (Some names) preserve same payload r h
     = merge_items None preserve same (filter (\<lambda>x. fst x \<in> set names) payload) r h"
proof (induction payload arbitrary: h)
  case Nil
  show ?case by simp
next
  case (Cons x payload)
  obtain name item where x: "x = (name, item)" by (cases x)
  show ?case
  proof (cases "name \<in> set names")
    case False
    with Cons x show ?thesis by simp
  next
    case True
    with Cons x show ?thesis
      by (auto split: prod.splits option.splits node.splits sum.splits)
  qed
qed

lemma agent_root_cases:
  "AGENT_ROOT_NAMES ai = Some root \<Longrightarrow>
   root \<in> {''.claude'', ''.gemini'', ''.cursor'', ''.qwen'', ''.opencode'', ''.codex'',
            ''.windsurf'', ''.kilocode'', ''.augment'', ''.github'', ''.roo''}"
  by (simp add: AGENT_ROOT_NAMES_def AGENT_DIRECTORY_MAP_def map_filter_def path_parts_def
      split: if_splits)

lemma agent_root_first_part:
  "AGENT_ROOT_NAMES ai = Some root \<Longrightarrow> root \<noteq> [] \<and> first_part root = root"
  by (drule agent_root_cases) (auto simp: first_part_def path_parts_def)

lemma agent_call_filter:
  assumes "1 < idx" and "AGENT_ROOT_NAMES ai = Some root"
  shows "filtered_top_level (top_level_filter (agent_call idx ai existing)) = Some [root]"
    and "\<not> preserve_existing_specs (agent_call idx ai existing)"
  using assms agent_root_first_part [OF assms(2)]
  by (simp_all add: agent_call_def truthy_def filtered_top_level_def Let_def)

text \<open>
  A path that stays clear of the agent root \<open>a\<close>: the project root is not below the agent root,
  and no part of the path leads back to the project root or to a file or directory below the
  agent root.
\<close>

definition outside :: "heap \<Rightarrow> ino \<Rightarrow> string \<Rightarrow> path \<Rightarrow> bool" where
  "outside h r a p \<longleftrightarrow>
     p \<noteq> [] \<and> hd p \<noteq> a \<and> r \<notin> under h r a
     \<and> (\<forall>p' i. prefix p' p \<longrightarrow> p' \<noteq> [] \<longrightarrow> resolve h r p' = Some i \<longrightarrow> i \<noteq> r \<and> i \<notin> under h r a)"

lemma written_single: "written (Some [a]) payload \<subseteq> {a}"
  by (auto simp: written_def)

lemma merge_items_outside:
  assumes m: "merge_items (Some [a]) False same payload r h = (e, h')"
    and wf: "wf_heap h" and r: "r < length h" and o: "outside h r a p"
  shows "look h' r p = look h r p"
proof -
  from m have "touched (\<Union>n \<in> written (Some [a]) payload - kept_names False. under h r n)
                 (\<Union>n \<in> written (Some [a]) payload. slots h r n) h h'"
    by (intro merge_items_touched) auto
  then have t: "touched (under h r a) (slots h r a) h h'"
    by (rule touched_mono) (use written_single [of a payload] in auto)
  from t wf r show ?thesis
  proof (rule look_frame)
    fix p1 n p2 y
    assume p: "p = p1 @ n # p2" and y: "resolve h r p1 = Some y"
    show "(y, n) \<notin> slots h r a"
    proof (cases p1)
      case Nil
      with p y o show ?thesis by (auto simp: outside_def slots_def)
    next
      case (Cons m p1')
      with p have "prefix p1 p" "p1 \<noteq> []" by auto
      with o y have "y \<noteq> r \<and> y \<notin> under h r a" unfolding outside_def by blast
      then show ?thesis by (auto simp: slots_def)
    qed
  next
    fix i
    assume "resolve h r p = Some i"
    with o show "i \<notin> under h r a" unfolding outside_def by blast
  qed
qed

text \<open>
  Claim C2, amended. With a filter, the payload entries whose names the filter does not hold
  are skipped: the merge is the merge, without a filter, of the entries it holds. For an agent
  after the first that has an agent root, the filter is that root alone and the preserve flag
  is off, and every path that stays clear of the agent root shows after the merge what it
  showed before, a file with its content, a directory or nothing, the shared \<open>.specs\<close> subtree
  included: nothing is created or modified there. A path does not stay clear when a hard link
  or a symbolic link leads from it to a file or directory below the agent root, or back to the
  project root.
\<close>

theorem agent_isolation:
  "merge_items (Some ns) preserve same payload r h
     = merge_items None preserve same (filter (\<lambda>x. fst x \<in> set ns) payload) r h
   \<and> (1 < idx \<and> AGENT_ROOT_NAMES ai = Some root \<longrightarrow>
        filtered_top_level (top_level_filter (agent_call idx ai existing)) = Some [root]
        \<and> \<not> preserve_existing_specs (agent_call idx ai existing)
        \<and> (\<forall>e h' p.
              merge_items (filtered_top_level (top_level_filter (agent_call idx ai existing)))
                (preserve_existing_specs (agent_call idx ai existing)) same payload r h = (e, h')
              \<longrightarrow> wf_heap h \<longrightarrow> r < length h \<longrightarrow> outside h r root p
              \<longrightarrow> look h' r p = look h r p))"
proof (intro conjI allI impI)
  show "merge_items (Some ns) preserve same payload r h
     = merge_items None preserve same (filter (\<lambda>x. fst x \<in> set ns) payload) r h"
    by (rule merge_items_filter)
next
  assume a: "1 < idx \<and> AGENT_ROOT_NAMES ai = Some root"
  then show f: "filtered_top_level (top_level_filter (agent_call idx ai existing)) = Some [root]"
    by (intro agent_call_filter) auto
  from a show np: "\<not> preserve_existing_specs (agent_call idx ai existing)"
    using agent_call_filter(2) by blast
  fix e h' p
  assume "merge_items (filtered_top_level (top_level_filter (agent_call idx ai existing)))
                (preserve_existing_specs (agent_call idx ai existing)) same payload r h = (e, h')"
    and "wf_heap h" "r < length h" "outside h r root p"
  with f np show "look h' r p = look h r p"
    by (intro merge_items_outside [where a = root and same = same]) auto
qed

subsection \<open>Failure of extraction or merge\<close>

lemma merge_items_grows:
  "merge_items flt preserve same items r h = (e, h') \<Longrightarrow> entry h r n = Some k \<Longrightarrow>
   entry h' r n = Some k"
proof (induction items arbitrary: h)
  case Nil
  then show ?case by simp
next
  case (Cons x rest)
  obtain name item where x: "x = (name, item)" by (cases x)
  have step: "entry h' r n = Some k"
    if "grows h h1" "merge_items flt preserve same rest r h1 = (e, h')" for h1
    using that Cons.prems(2) Cons.IH [of h1] by (auto simp: grows_def)
  show ?case
  proof (cases "(flt \<noteq> None \<and> name \<notin> set (the flt)) \<or> same name")
    case True
    with Cons.prems(1) x have "merge_items flt preserve same rest r h = (e, h')"
      by (simp only: merge_items_skip)
    with grows_refl show ?thesis by (rule step)
  next
    case False
    then have pass: "flt = None \<or> name \<in> set (the flt)" and ns: "\<not> same name" by auto
    show ?thesis
    proof (cases "preserve \<and> name = ''.specs'' \<and> entry h r name \<noteq> None")
      case True
      then have pt: "preserve = True" and nm: "name = ''.specs''"
        and ex: "entry h r ''.specs'' \<noteq> None" by auto
      from pass ns have "flt = None \<or> ''.specs'' \<in> set (the flt)" "\<not> same ''.specs''"
        unfolding nm by auto
      note eq = merge_items_specs [where same = same, OF this ex]
      obtain e1 h1 where c: "copytree_preserve item r ''.specs'' h = (e1, h1)"
        by (cases "copytree_preserve item r ''.specs'' h")
      from Cons.prems(1) have m: "(case copytree_preserve item r ''.specs'' h of
            (Some e, h') \<Rightarrow> (Some e, h')
          | (None, h') \<Rightarrow> merge_items flt True same rest r h') = (e, h')"
        unfolding x nm pt eq .
      from touched_preserve(1) [OF c] have g: "grows h h1" by (rule touched_grows)
      show ?thesis
      proof (cases e1)
        case (Some a)
        with c m have "h' = h1" by simp
        with g Cons.prems(2) show ?thesis by (auto simp: grows_def)
      next
        case None
        with c m pt have "merge_items flt preserve same rest r h1 = (e, h')" by simp
        with g show ?thesis by (rule step)
      qed
    next
      case np: False
      note mf = merge_items_file [where same = same, OF pass ns np]
      note md = merge_items_dir [where same = same, OF pass ns np]
      show ?thesis
      proof (cases item)
        case (File c)
        show ?thesis
        proof (cases "copy2 name c r name h")
          case (Inl a)
          with File Cons.prems(1) x have "h' = h"
            by (simp add: mf del: merge_items.simps)
          with Cons.prems(2) show ?thesis by simp
        next
          case (Inr h1)
          with File Cons.prems(1) x
          have m: "merge_items flt preserve same rest r h1 = (e, h')"
            by (simp add: mf del: merge_items.simps)
          from touched_copy2 [OF Inr] have "grows h h1" by (rule touched_grows)
          then show ?thesis using m by (rule step)
        qed
      next
        case (Dir ses)
        obtain e1 h1 where c: "copytree (Dir ses) r name True h = (e1, h1)"
          by (cases "copytree (Dir ses) r name True h")
        from touched_copytree [OF c] have g: "grows h h1" by (rule touched_grows)
        show ?thesis
        proof (cases e1)
          case (Some a)
          with c Dir Cons.prems(1) x have "h' = h1"
            by (simp add: md del: merge_items.simps)
          with g Cons.prems(2) show ?thesis by (auto simp: grows_def)
        next
          case None
          with c Dir Cons.prems(1) x
          have "merge_items flt preserve same rest r h1 = (e, h')"
            by (simp add: md del: merge_items.simps)
          with g show ?thesis by (rule step)
        qed
      qed
    qed
  qed
qed

text \<open>
  Claim C6. When extraction or merge fails, then outside in-place mode the project path
  holds nothing afterwards; in in-place mode the project is left as the failed merge left
  it, and every top-level entry that existed before still exists and names the same inode.
\<close>

theorem failure_cleanup:
  assumes "download_and_extract_template project_path is_current_dir source top_level preserve same h
             = (Some e, project', h')"
  shows "(\<not> is_current_dir \<longrightarrow> project' = None)
       \<and> (is_current_dir \<longrightarrow>
            (project', h') = snd (extract_and_merge project_path is_current_dir source top_level preserve same h)
            \<and> (\<forall>r. project_path = Some r \<longrightarrow>
                  project' = Some r \<and> (\<forall>n k. entry h r n = Some k \<longrightarrow> entry h' r n = Some k)))"
proof (intro conjI impI allI)
  assume "\<not> is_current_dir"
  with assms show "project' = None"
    by (auto simp: download_and_extract_template_def extract_and_merge_def Let_def case_prod_beta
        split: option.splits prod.splits if_splits)
next
  assume c: "is_current_dir"
  with assms show s: "(project', h') = snd (extract_and_merge project_path is_current_dir source top_level preserve same h)"
    by (auto simp: download_and_extract_template_def split: option.splits prod.splits)
  fix r
  assume r: "project_path = Some r"
  show "project' = Some r" using s c r
    by (auto simp: extract_and_merge_def Let_def case_prod_beta split: option.splits)
  fix n k
  assume ch: "entry h r n = Some k"
  show "entry h' r n = Some k"
  proof (cases "case source of LocalTemplateDir es \<Rightarrow> Some es | TemplateArchive z \<Rightarrow> z")
    case None
    with s c r ch show ?thesis by (simp add: extract_and_merge_def)
  next
    case (Some items)
    obtain e1 h1 where m: "merge_items (filtered_top_level top_level) preserve same
        (fst (flatten_payload items)) r h = (e1, h1)"
      by (cases "merge_items (filtered_top_level top_level) preserve same (fst (flatten_payload items)) r h")
    with s c r Some have "h' = h1"
      by (simp add: extract_and_merge_def Let_def)
    with merge_items_grows [OF m ch] show ?thesis by simp
  qed
qed

subsection \<open>Examples of merges\<close>

lemma resolve_Reg: "obj_at h i = Some (Reg c) \<Longrightarrow> resolve h i q = Some j \<longleftrightarrow> q = [] \<and> j = i"
  by (cases q) (auto simp: entry_def)

lemma reach_closed:
  assumes "k \<in> A" and "\<And>i n j. i \<in> A \<Longrightarrow> entry h i n = Some j \<Longrightarrow> j \<in> A"
  shows "reach h k \<subseteq> A"
proof -
  have "resolve h i p = Some j \<Longrightarrow> i \<in> A \<Longrightarrow> j \<in> A" for i p j
    by (induction p arbitrary: i) (auto dest: assms(2) split: option.splits)
  with assms(1) show ?thesis by (auto simp: reach_def)
qed

text \<open>
  Claim C1 as stated fails for a file with a name outside \<open>.specs\<close>. \<open>README.md\<close> and
  \<open>.specs/foo.md\<close> are hard links of one file; the preserving copy of \<open>.specs\<close> skips
  \<open>foo.md\<close>, and the copy of \<open>README.md\<close> writes the file in place.
\<close>

definition linked_project :: heap where
  "linked_project =
     [Folder [(''.specs'', 1), (''README.md'', 2)], Folder [(''foo.md'', 2)], Reg ''mine'']"

definition link_payload :: entries where
  "link_payload = [(''.specs'', Dir [(''foo.md'', File ''theirs'')]), (''README.md'', File ''readme'')]"

theorem no_clobber_hard_link_counterexample:
  "look linked_project 0 [''.specs''] = Some SDir
   \<and> look linked_project 0 [''.specs'', ''foo.md''] = Some (SFile ''mine'')
   \<and> merge_items None True (\<lambda>_. False) link_payload 0 linked_project
       = (None, [Folder [(''.specs'', 1), (''README.md'', 2)], Folder [(''foo.md'', 2)], Reg ''readme''])
   \<and> look [Folder [(''.specs'', 1), (''README.md'', 2)], Folder [(''foo.md'', 2)], Reg ''readme''] 0
        [''.specs'', ''foo.md''] = Some (SFile ''readme'')"
  by code_simp

text \<open>
  A project without links: \<open>.specs/foo.md\<close> and \<open>.specs/sub/a.md\<close> keep their content,
  \<open>.specs/bar.md\<close> and \<open>.specs/sub/b.md\<close> are added, \<open>README.md\<close> is overwritten.
\<close>

definition old_project :: heap where
  "old_project =
     [Folder [(''.specs'', 1), (''README.md'', 5)],
      Folder [(''foo.md'', 2), (''sub'', 3)],
      Reg ''mine'',
      Folder [(''a.md'', 4)],
      Reg ''A'',
      Reg ''old'']"

definition new_payload :: entries where
  "new_payload =
     [(''.specs'', Dir [(''foo.md'', File ''theirs''), (''bar.md'', File ''new''),
                        (''sub'', Dir [(''a.md'', File ''A2''), (''b.md'', File ''B'')])]),
      (''README.md'', File ''readme'')]"

definition merged_project :: heap where
  "merged_project =
     [Folder [(''.specs'', 1), (''README.md'', 5)],
      Folder [(''foo.md'', 2), (''sub'', 3), (''bar.md'', 6)],
      Reg ''mine'',
      Folder [(''a.md'', 4), (''b.md'', 7)],
      Reg ''A'',
      Reg ''readme'',
      Reg ''new'',
      Reg ''B'']"

lemma merge_demo:
  "merge_items None True (\<lambda>_. False) new_payload 0 old_project = (None, merged_project)"
  by code_simp

lemma old_project_unshared:
  "\<not> shared old_project 0 (fst ` set new_payload - {''.specs''}) [''.specs'', ''foo.md'']"
proof -
  have n: "fst ` set new_payload - {''.specs''} = {''README.md''}"
    by (auto simp: new_payload_def)
  have c: "entry old_project 0 ''README.md'' = Some 5" by code_simp
  have o: "obj_at old_project 5 = Some (Reg ''old'')" by code_simp
  have r: "resolve old_project 0 [''.specs'', ''foo.md''] = Some 2" by code_simp
  have "resolve old_project 0 (''README.md'' # q) = Some i \<longleftrightarrow> q = [] \<and> i = 5" for q i
    by (simp add: c resolve_Reg [OF o])
  then show ?thesis
    unfolding shared_def n r by simp
qed

theorem no_clobber_witness:
  "entry old_project 0 ''.specs'' \<noteq> None
   \<and> merge_items None True (\<lambda>_. False) new_payload 0 old_project = (None, merged_project)
   \<and> look old_project 0 [''.specs'', ''foo.md''] = Some (SFile ''mine'')
   \<and> look merged_project 0 [''.specs'', ''foo.md''] = Some (SFile ''mine'')
   \<and> look old_project 0 [''.specs'', ''bar.md''] = None
   \<and> look merged_project 0 [''.specs'', ''bar.md''] = Some (SFile ''new'')
   \<and> look merged_project 0 [''README.md''] = Some (SFile ''readme'')"
proof -
  have h: "entry old_project 0 ''.specs'' \<noteq> None" by code_simp
  have l: "look old_project 0 [''.specs'', ''foo.md''] = Some (SFile ''mine'')" by code_simp
  have rest: "look old_project 0 [''.specs'', ''bar.md''] = None"
    "look merged_project 0 [''.specs'', ''bar.md''] = Some (SFile ''new'')"
    "look merged_project 0 [''README.md''] = Some (SFile ''readme'')"
    by code_simp+
  from no_clobber [OF h merge_demo] l old_project_unshared
  have "look merged_project 0 [''.specs'', ''foo.md''] = Some (SFile ''mine'')" by blast
  with h merge_demo l rest show ?thesis by simp
qed

text \<open>
  Claim C2 as stated fails for a file of the agent root that has a name outside it.
  \<open>.claude/notes.md\<close> and \<open>README.md\<close> are hard links of one file; the copy of \<open>.claude\<close>
  writes the file in place, and \<open>README.md\<close> shows the new content.
\<close>

definition agent_project :: heap where
  "agent_project =
     [Folder [(''.claude'', 1), (''README.md'', 2)], Folder [(''notes.md'', 2)], Reg ''mine'']"

definition agent_payload :: entries where
  "agent_payload =
     [(''.claude'', Dir [(''notes.md'', File ''P'')]), (''README.md'', File ''other'')]"

theorem agent_isolation_hard_link_counterexample:
  "AGENT_ROOT_NAMES ''claude'' = Some ''.claude''
   \<and> filtered_top_level (top_level_filter (agent_call 2 ''claude'' True)) = Some [''.claude'']
   \<and> look agent_project 0 [''README.md''] = Some (SFile ''mine'')
   \<and> merge_items (Some [''.claude'']) False (\<lambda>_. False) agent_payload 0 agent_project
       = (None, [Folder [(''.claude'', 1), (''README.md'', 2)], Folder [(''notes.md'', 2)], Reg ''P''])
   \<and> look [Folder [(''.claude'', 1), (''README.md'', 2)], Folder [(''notes.md'', 2)], Reg ''P''] 0
        [''README.md''] = Some (SFile ''P'')"
proof -
  have r: "AGENT_ROOT_NAMES ''claude'' = Some ''.claude''"
    by (simp add: AGENT_ROOT_NAMES_def AGENT_DIRECTORY_MAP_def map_filter_def path_parts_def)
  from agent_call_filter(1) [OF _ r, of 2 True]
  have f: "filtered_top_level (top_level_filter (agent_call 2 ''claude'' True)) = Some [''.claude'']"
    by simp
  have "look agent_project 0 [''README.md''] = Some (SFile ''mine'')
   \<and> merge_items (Some [''.claude'']) False (\<lambda>_. False) agent_payload 0 agent_project
       = (None, [Folder [(''.claude'', 1), (''README.md'', 2)], Folder [(''notes.md'', 2)], Reg ''P''])
   \<and> look [Folder [(''.claude'', 1), (''README.md'', 2)], Folder [(''notes.md'', 2)], Reg ''P''] 0
        [''README.md''] = Some (SFile ''P'')"
    by code_simp
  with r f show ?thesis by simp
qed

text \<open>
  A project without links that has the agent root already: the second agent writes below
  \<open>.claude\<close> only, and \<open>README.md\<close> and \<open>.specs/foo.md\<close> show what they showed before.
\<close>

definition second_payload :: entries where
  "second_payload =
     [(''.claude'', Dir [(''commands'', Dir [(''plan.md'', File ''P''), (''old.md'', File ''O2'')])]),
      (''.specs'', Dir [(''foo.md'', File ''theirs'')]),
      (''README.md'', File ''other'')]"

definition first_project :: heap where
  "first_project =
     [Folder [(''.specs'', 1), (''README.md'', 3), (''.claude'', 4)],
      Folder [(''foo.md'', 2)],
      Reg ''mine'',
      Reg ''readme'',
      Folder [(''commands'', 5)],
      Folder [(''old.md'', 6)],
      Reg ''O'']"

definition isolated_project :: heap where
  "isolated_project =
     [Folder [(''.specs'', 1), (''README.md'', 3), (''.claude'', 4)],
      Folder [(''foo.md'', 2)],
      Reg ''mine'',
      Reg ''readme'',
      Folder [(''commands'', 5)],
      Folder [(''old.md'', 6), (''plan.md'', 7)],
      Reg ''O2'',
      Reg ''P'']"

lemma first_project_under: "under first_project 0 ''.claude'' \<subseteq> {4, 5, 6}"
proof -
  have c: "entry first_project 0 ''.claude'' = Some 4" by code_simp
  have "reach first_project 4 \<subseteq> {4, 5, 6}"
  proof (rule reach_closed)
    fix i n j
    assume "i \<in> {4, 5, 6 :: nat}" "entry first_project i n = Some j"
    then show "j \<in> {4, 5, 6}"
      by (auto simp: entry_def obj_at_def first_project_def split: if_splits)
  qed simp
  with c show ?thesis by (simp add: under_child)
qed

lemma first_project_wf: "wf_heap first_project"
  by code_simp

lemma first_project_outside:
  "outside first_project 0 ''.claude'' [''README.md'']"
  "outside first_project 0 ''.claude'' [''.specs'', ''foo.md'']"
proof -
  have r: "resolve first_project 0 [''README.md''] = Some 3"
    "resolve first_project 0 [''.specs''] = Some 1"
    "resolve first_project 0 [''.specs'', ''foo.md''] = Some 2"
    by code_simp+
  have p1: "prefix p' [''README.md''] \<longleftrightarrow> p' = [] \<or> p' = [''README.md'']" for p'
    by (cases p') (auto simp: prefix_Cons)
  have p2: "prefix p' [''.specs'', ''foo.md''] \<longleftrightarrow>
      p' = [] \<or> p' = [''.specs''] \<or> p' = [''.specs'', ''foo.md'']" for p'
    by (cases p'; cases "tl p'") (auto simp: prefix_Cons)
  from first_project_under r show "outside first_project 0 ''.claude'' [''README.md'']"
    unfolding outside_def p1 by auto
  from first_project_under r show "outside first_project 0 ''.claude'' [''.specs'', ''foo.md'']"
    unfolding outside_def p2 by auto
qed

theorem agent_isolation_witness:
  "AGENT_ROOT_NAMES ''claude'' = Some ''.claude''
   \<and> filtered_top_level (top_level_filter (agent_call 2 ''claude'' True)) = Some [''.claude'']
   \<and> merge_items (Some [''.claude'']) False (\<lambda>_. False) second_payload 0 first_project
       = (None, isolated_project)
   \<and> look first_project 0 [''README.md''] = Some (SFile ''readme'')
   \<and> look isolated_project 0 [''README.md''] = Some (SFile ''readme'')
   \<and> look isolated_project 0 [''.specs'', ''foo.md''] = Some (SFile ''mine'')
   \<and> look isolated_project 0 [''.claude'', ''commands'', ''plan.md''] = Some (SFile ''P'')
   \<and> look isolated_project 0 [''.claude'', ''commands'', ''old.md''] = Some (SFile ''O2'')"
proof -
  have r: "AGENT_ROOT_NAMES ''claude'' = Some ''.claude''"
    by (simp add: AGENT_ROOT_NAMES_def AGENT_DIRECTORY_MAP_def map_filter_def path_parts_def)
  have m: "merge_items (Some [''.claude'']) False (\<lambda>_. False) second_payload 0 first_project
       = (None, isolated_project)"
    by code_simp
  have l: "look first_project 0 [''README.md''] = Some (SFile ''readme'')"
    "look first_project 0 [''.specs'', ''foo.md''] = Some (SFile ''mine'')"
    "look isolated_project 0 [''.claude'', ''commands'', ''plan.md''] = Some (SFile ''P'')"
    "look isolated_project 0 [''.claude'', ''commands'', ''old.md''] = Some (SFile ''O2'')"
    by code_simp+
  have len: "0 < length first_project" by (simp add: first_project_def)
  note a = agent_isolation [of "[]" False "\<lambda>_. False" second_payload 0 first_project 2 "''claude''"
      "''.claude''" True]
  from a r have f: "filtered_top_level (top_level_filter (agent_call 2 ''claude'' True)) = Some [''.claude'']"
    and np: "\<not> preserve_existing_specs (agent_call 2 ''claude'' True)"
    and fr: "\<And>p. outside first_project 0 ''.claude'' p \<Longrightarrow>
        look isolated_project 0 p = look first_project 0 p"
    using m first_project_wf len by auto
  from fr [OF first_project_outside(1)] fr [OF first_project_outside(2)] r f m l
  show ?thesis by simp
qed

text \<open>A merge that fails on its second entry, in place and not, and an archive that cannot be read.\<close>

definition clashing_payload :: entries where
  "clashing_payload = [(''b.txt'', File ''y''), (''a'', Dir [(''c.txt'', File ''z'')])]"

theorem failure_cleanup_witness:
  "download_and_extract_template (Some 0) True
       (LocalTemplateDir clashing_payload) None False (\<lambda>_. False) [Folder [(''a'', 1)], Reg ''x'']
     = (Some FileExistsError, Some 0, [Folder [(''a'', 1), (''b.txt'', 2)], Reg ''x'', Reg ''y''])
   \<and> download_and_extract_template (Some 0) False
       (LocalTemplateDir clashing_payload) None False (\<lambda>_. False) [Folder [(''a'', 1)], Reg ''x'']
     = (Some FileExistsError, None, [Folder [(''a'', 1), (''b.txt'', 2)], Reg ''x'', Reg ''y''])
   \<and> download_and_extract_template None False (TemplateArchive None) None False (\<lambda>_. False) []
     = (Some BadZipFile, None, [Folder []])"
proof -
  have a: "download_and_extract_template (Some 0) True
       (LocalTemplateDir clashing_payload) None False (\<lambda>_. False) [Folder [(''a'', 1)], Reg ''x'']
     = (Some FileExistsError, Some 0, [Folder [(''a'', 1), (''b.txt'', 2)], Reg ''x'', Reg ''y''])"
    by code_simp
  have b: "download_and_extract_template (Some 0) False
       (LocalTemplateDir clashing_payload) None False (\<lambda>_. False) [Folder [(''a'', 1)], Reg ''x'']
     = (Some FileExistsError, None, [Folder [(''a'', 1), (''b.txt'', 2)], Reg ''x'', Reg ''y''])"
    by code_simp
  have c: "download_and_extract_template None False (TemplateArchive None) None False (\<lambda>_. False) []
     = (Some BadZipFile, None, [Folder []])"
    by code_simp
  from failure_cleanup [OF a] failure_cleanup [OF b] failure_cleanup [OF c] a b c
  show ?thesis by simp
qed

section \<open>Legacy Relocator\<close>

text \<open>
  \<open>relocate_non_agent_directories\<close> works on the project tree with \<open>Path.exists\<close>,
  \<open>Path.is_dir\<close>, \<open>Path.iterdir\<close>, \<open>Path.mkdir\<close>, \<open>Path.rmdir\<close> and \<open>shutil.move\<close>.
  Paths are relative to \<open>project_path\<close>; the tree holds no symbolic links. \<open>iterdir\<close> lists a
  directory in the order of its entries, once, when the loop starts.
\<close>

definition exists_at :: "node \<Rightarrow> path \<Rightarrow> bool" where
  "exists_at t p = (lookup t p \<noteq> None)"

definition is_dir_at :: "node \<Rightarrow> path \<Rightarrow> bool" where
  "is_dir_at t p = (case lookup t p of Some (Dir _) \<Rightarrow> True | _ \<Rightarrow> False)"

definition iterdir :: "node \<Rightarrow> path \<Rightarrow> string list" where
  "iterdir t p = (case lookup t p of Some (Dir es) \<Rightarrow> map fst es | _ \<Rightarrow> [])"

text \<open>
  \<open>shutil.move(src, dst)\<close> is called only where \<open>dst\<close> does not exist. It renames \<open>src\<close>, which
  needs the parent of \<open>dst\<close> to be a directory. When the rename fails, a directory is copied with
  \<open>copytree\<close>, whose \<open>os.makedirs\<close> creates the missing parents, and then removed; a file is
  copied with \<open>copy2\<close>, which fails when the parent is missing. A directory is not moved into
  itself. \<open>remove_at\<close> takes the source out of the tree and \<open>add_at\<close> puts it at the
  destination, creating missing parents when its first argument is true. Every failure to place the
  item is reported as \<open>FileNotFoundError\<close>: no caller looks at the kind of the error.
\<close>

fun remove_at :: "path \<Rightarrow> node \<Rightarrow> node" where
  "remove_at [] t = t"
| "remove_at (n # p) (File c) = File c"
| "remove_at [n] (Dir es) = Dir (AList.delete n es)"
| "remove_at (n # m # p) (Dir es) =
     (case map_of es n of
        None \<Rightarrow> Dir es
      | Some ch \<Rightarrow> Dir (AList.update n (remove_at (m # p) ch) es))"

fun add_at :: "bool \<Rightarrow> path \<Rightarrow> node \<Rightarrow> node \<Rightarrow> node option" where
  "add_at parents [] x t = None"
| "add_at parents (n # p) x (File c) = None"
| "add_at parents [n] x (Dir es) = Some (Dir (AList.update n x es))"
| "add_at parents (n # m # p) x (Dir es) =
     (case map_of es n of
        None \<Rightarrow>
          (if parents
           then map_option (\<lambda>ch. Dir (AList.update n ch es)) (add_at parents (m # p) x (Dir []))
           else None)
      | Some ch \<Rightarrow> map_option (\<lambda>ch'. Dir (AList.update n ch' es)) (add_at parents (m # p) x ch))"

definition shutil_move :: "path \<Rightarrow> path \<Rightarrow> node \<Rightarrow> fs_error + node" where
  "shutil_move src dst t =
     (case lookup t src of
        None \<Rightarrow> Inl FileNotFoundError
      | Some x \<Rightarrow>
          (if strict_prefix src dst
           then Inl (case x of Dir _ \<Rightarrow> ShutilError | File _ \<Rightarrow> NotADirectoryError)
           else case add_at (case x of Dir _ \<Rightarrow> True | File _ \<Rightarrow> False) dst x (remove_at src t) of
                  None \<Rightarrow> Inl FileNotFoundError
                | Some t' \<Rightarrow> Inr t'))"

text \<open>\<open>Path.rmdir\<close> removes an empty directory and raises an \<open>OSError\<close> otherwise.\<close>

definition rmdir :: "path \<Rightarrow> node \<Rightarrow> node option" where
  "rmdir p t = (case lookup t p of Some (Dir []) \<Rightarrow> Some (remove_at p t) | _ \<Rightarrow> None)"

text \<open>\<open>legacy_root = project_path / ".specify"\<close>.\<close>

definition legacy_root :: path where
  "legacy_root = [''.specify'']"

text \<open>
  Modelled from the spec: \<open>get_specs_root\<close> and \<open>get_specify_root\<close> are imported from the module
  \<open>paths\<close>, which is not part of the source at hand. The canonical root is an entry of the specs
  root, whose name the third loop leaves out (\<open>item.name == ".specify"\<close>); the docstring of
  \<open>relocate_non_agent_directories\<close> names it \<open>.specs/.specify/\<close>. Both functions are taken to
  join path components and to create nothing.
\<close>

definition specs_root :: path where
  "specs_root = [''.specs'']"

definition specify_root :: path where
  "specify_root = [''.specs'', ''.specify'']"

text \<open>
  The state of a run: the project tree and the three counters of the source. \<open>moves\<close> is not in
  the source: it counts the calls of \<open>shutil.move\<close> that succeeded.
\<close>

record reloc =
  fs :: node
  migrated :: nat
  moved :: nat
  nested_moved :: nat
  moves :: nat

text \<open>A \<open>for\<close> loop whose body may raise: the first error leaves the loop.\<close>

fun for_each :: "('a \<Rightarrow> 's \<Rightarrow> fs_error option \<times> 's) \<Rightarrow> 'a list \<Rightarrow> 's \<Rightarrow> fs_error option \<times> 's" where
  "for_each body [] s = (None, s)"
| "for_each body (x # xs) s =
     (case body x s of
        (Some e, s') \<Rightarrow> (Some e, s')
      | (None, s') \<Rightarrow> for_each body xs s')"

text \<open>The body of the two inner loops: \<open>target = dest / child.name\<close>, skipped when it exists.\<close>

definition move_child :: "path \<Rightarrow> path \<Rightarrow> string \<Rightarrow> reloc \<Rightarrow> fs_error option \<times> reloc" where
  "move_child item dest child s =
     (let target = dest @ [child] in
      if exists_at (fs s) target then (None, s)
      else case shutil_move (item @ [child]) target (fs s) of
             Inl e \<Rightarrow> (Some e, s)
           | Inr t' \<Rightarrow> (None, s\<lparr>fs := t', moves := moves s + 1\<rparr>))"

text \<open>\<open>path.rmdir()\<close> inside \<open>try\<close>: an \<open>OSError\<close> is passed over.\<close>

definition try_rmdir :: "path \<Rightarrow> reloc \<Rightarrow> reloc" where
  "try_rmdir p s = (case rmdir p (fs s) of None \<Rightarrow> s | Some t' \<Rightarrow> s\<lparr>fs := t'\<rparr>)"

text \<open>First loop: the entries of the legacy \<open>.specify\<close> directory.\<close>

definition migrate_item :: "string \<Rightarrow> reloc \<Rightarrow> fs_error option \<times> reloc" where
  "migrate_item name s =
     (let item = legacy_root @ [name]; dest = specify_root @ [name] in
      if exists_at (fs s) dest then
        (if is_dir_at (fs s) item then
           (if \<not> is_dir_at (fs s) dest then (Some FileExistsError, s)
            else case for_each (move_child item dest) (iterdir (fs s) item) s of
                   (Some e, s') \<Rightarrow> (Some e, s')
                 | (None, s') \<Rightarrow> (None, s'\<lparr>migrated := migrated s' + 1\<rparr>))
         else (None, s))
      else case shutil_move item dest (fs s) of
             Inl e \<Rightarrow> (Some e, s)
           | Inr t' \<Rightarrow> (None, s\<lparr>fs := t', migrated := migrated s + 1, moves := moves s + 1\<rparr>))"

definition migrate_legacy :: "reloc \<Rightarrow> fs_error option \<times> reloc" where
  "migrate_legacy s =
     (if is_dir_at (fs s) legacy_root then
        (case for_each migrate_item (iterdir (fs s) legacy_root) s of
           (Some e, s') \<Rightarrow> (Some e, s')
         | (None, s') \<Rightarrow> (None, try_rmdir legacy_root s'))
      else (None, s))"

text \<open>Second loop: the fixed list of legacy top-level names.\<close>

definition non_agent_dirs :: "string list" where
  "non_agent_dirs =
     [''plan'', ''spec'', ''notes'', ''scratch'', ''memory'', ''docs'', ''logs'', ''specs'']"

definition move_named :: "string \<Rightarrow> reloc \<Rightarrow> fs_error option \<times> reloc" where
  "move_named name s =
     (let source = [name]; destination = specify_root @ [name] in
      if \<not> exists_at (fs s) source then (None, s)
      else if exists_at (fs s) destination then (None, s)
      else case shutil_move source destination (fs s) of
             Inl e \<Rightarrow> (Some e, s)
           | Inr t' \<Rightarrow> (None, s\<lparr>fs := t', moved := moved s + 1, moves := moves s + 1\<rparr>))"

text \<open>Third loop: the entries of \<open>.specs\<close>; any exception of the body is passed over.\<close>

definition consolidate_item :: "string \<Rightarrow> reloc \<Rightarrow> reloc" where
  "consolidate_item name s =
     (if name = ''.specify'' then s
      else
        (let item = specs_root @ [name]; dest = specify_root @ [name] in
         if exists_at (fs s) dest then
           (if is_dir_at (fs s) item \<and> is_dir_at (fs s) dest then
              (case for_each (move_child item dest) (iterdir (fs s) item) s of
                 (Some e, s') \<Rightarrow> s'
               | (None, s') \<Rightarrow> try_rmdir item s')
            else s)
         else case shutil_move item dest (fs s) of
                Inl e \<Rightarrow> s
              | Inr t' \<Rightarrow> s\<lparr>fs := t', nested_moved := nested_moved s + 1, moves := moves s + 1\<rparr>))"

text \<open>
  The function returns \<open>None\<close> in the source; here it returns the exception that left it, if any,
  and the final state. \<open>specs_root.iterdir()\<close> raises when \<open>.specs\<close> is not a directory.
\<close>

definition relocate_non_agent_directories :: "node \<Rightarrow> fs_error option \<times> reloc" where
  "relocate_non_agent_directories project =
     (case migrate_legacy \<lparr>fs = project, migrated = 0, moved = 0, nested_moved = 0, moves = 0\<rparr> of
        (Some e, s) \<Rightarrow> (Some e, s)
      | (None, s) \<Rightarrow>
          (case for_each move_named non_agent_dirs s of
             (Some e, s') \<Rightarrow> (Some e, s')
           | (None, s') \<Rightarrow>
               (if is_dir_at (fs s') specs_root
                then (None, fold consolidate_item (iterdir (fs s') specs_root) s')
                else (Some (if exists_at (fs s') specs_root then NotADirectoryError
                            else FileNotFoundError), s'))))"

text \<open>Two project trees: one without the canonical root, one with legacy entries of every kind.\<close>

definition loose_specs :: node where
  "loose_specs = Dir [(''.specs'', Dir [(''X'', File ''x''), (''Y'', Dir [])])]"


definition old_layout :: node where
  "old_layout = Dir
     [(''.specify'', Dir [(''memory'', Dir [(''a.md'', File ''A''), (''b.md'', File ''B'')]),
                          (''templates'', Dir [(''t.md'', File ''T'')]),
                          (''README'', File ''r'')]),
      (''docs'', Dir [(''d.md'', File ''D'')]),
      (''logs'', File ''l''),
      (''.specs'', Dir [(''.specify'', Dir [(''memory'', Dir [(''a.md'', File ''A0'')]),
                                           (''README'', File ''r0''),
                                           (''logs'', Dir [])]),
                        (''notes'', Dir [(''n.md'', File ''N'')]),
                        (''memory'', Dir [(''a.md'', File ''A1''), (''c.md'', File ''C'')]),
                        (''logs'', Dir [])])]"

subsection \<open>Lookups after a removal and after an insertion\<close>

lemma remove_at_File [simp]: "remove_at p (File c) = File c"
  by (cases p) simp_all

lemma remove_at_Dir: "\<exists>es'. remove_at p (Dir es) = Dir es' \<and> set (map fst es') \<subseteq> set (map fst es)"
proof (cases p)
  case Nil
  then show ?thesis by simp
next
  case (Cons n q)
  show ?thesis
  proof (cases q)
    case Nil
    have "set (map fst (AList.delete n es)) \<subseteq> set (map fst es)"
      unfolding delete_keys by auto
    with Cons Nil show ?thesis by simp
  next
    case q: (Cons m r)
    show ?thesis
    proof (cases "map_of es n")
      case None
      with Cons q show ?thesis by simp
    next
      case (Some ch)
      then have "n \<in> set (map fst es)" by (auto dest: map_of_SomeD intro: rev_image_eqI)
      then have "map fst (AList.update n (remove_at (m # r) ch) es) = map fst es"
        by (simp add: update_keys)
      then have "fst ` set (AList.update n (remove_at (m # r) ch) es) = fst ` set es"
        by (metis set_map)
      with Cons q Some show ?thesis by simp
    qed
  qed
qed

lemma lookup_remove_at_under:
  "p \<noteq> [] \<Longrightarrow> prefix p q \<Longrightarrow> lookup (remove_at p t) q = None"
proof (induction p t arbitrary: q rule: remove_at.induct)
  case (1 t)
  then show ?case by simp
next
  case (2 n p c)
  then show ?case by (cases q) auto
next
  case (3 n es)
  then show ?case by (cases q) (auto simp: delete_conv')
next
  case (4 n m p es)
  then obtain q' where q: "q = n # q'" "prefix (m # p) q'" by (cases q) auto
  show ?case
  proof (cases "map_of es n")
    case None
    with q show ?thesis by simp
  next
    case (Some ch)
    with 4(1) [OF Some _ q(2)] q show ?thesis by (simp add: update_conv')
  qed
qed

lemma lookup_remove_at_other:
  "\<not> prefix p q \<Longrightarrow> \<not> prefix q p \<Longrightarrow> lookup (remove_at p t) q = lookup t q"
proof (induction p t arbitrary: q rule: remove_at.induct)
  case (1 t)
  then show ?case by simp
next
  case (2 n p c)
  then show ?case by simp
next
  case (3 n es)
  then show ?case by (cases q) (auto simp: delete_conv')
next
  case (4 n m p es)
  then obtain k q' where q: "q = k # q'" by (cases q) auto
  show ?case
  proof (cases "map_of es n")
    case None
    then show ?thesis by simp
  next
    case (Some ch)
    show ?thesis
    proof (cases "k = n")
      case True
      with 4(2,3) q have "\<not> prefix (m # p) q'" "\<not> prefix q' (m # p)" by auto
      from 4(1) [OF Some this] Some q True show ?thesis by (simp add: update_conv')
    next
      case False
      with Some q show ?thesis by (simp add: update_conv')
    qed
  qed
qed

lemma lookup_remove_at_above:
  "r \<noteq> [] \<Longrightarrow> lookup (remove_at (q @ r) t) q = map_option (remove_at r) (lookup t q)"
proof (induction q arbitrary: t)
  case Nil
  then show ?case by simp
next
  case (Cons n q)
  show ?case
  proof (cases t)
    case (File c)
    then show ?thesis by simp
  next
    case (Dir es)
    show ?thesis
    proof (cases "q @ r")
      case Nil
      with Cons.prems show ?thesis by simp
    next
      case c: (Cons m p)
      with Dir Cons.IH [OF Cons.prems] show ?thesis
        by (auto simp: update_conv' split: option.splits)
    qed
  qed
qed

lemma lookup_add_at_under:
  "add_at b p x t = Some t' \<Longrightarrow> lookup t' (p @ r) = lookup x r"
proof (induction b p x t arbitrary: t' rule: add_at.induct)
  case (4 parents n m p x es)
  show ?case
  proof (cases "map_of es n")
    case None
    with 4(3) obtain ch where "parents" "add_at parents (m # p) x (Dir []) = Some ch"
      "t' = Dir (AList.update n ch es)"
      by (auto split: if_splits)
    with 4(1) [OF None] show ?thesis by (simp add: update_conv')
  next
    case (Some c)
    with 4(3) obtain ch where "add_at parents (m # p) x c = Some ch"
      "t' = Dir (AList.update n ch es)"
      by auto
    with 4(2) [OF Some] show ?thesis by (simp add: update_conv')
  qed
qed (auto simp: update_conv')

lemma lookup_add_at_other:
  "add_at b p x t = Some t' \<Longrightarrow> \<not> prefix p q \<Longrightarrow> \<not> prefix q p \<Longrightarrow> lookup t' q = lookup t q"
proof (induction b p x t arbitrary: t' q rule: add_at.induct)
  case (3 parents n x es)
  then show ?case by (cases q) (auto simp: update_conv')
next
  case (4 parents n m p x es)
  from 4(5) obtain k q' where q: "q = k # q'" by (cases q) auto
  show ?case
  proof (cases "k = n")
    case False
    with 4(3) q show ?thesis by (auto simp: update_conv' split: option.splits if_splits)
  next
    case True
    with 4(4,5) q have pq: "\<not> prefix (m # p) q'" "\<not> prefix q' (m # p)" by auto
    show ?thesis
    proof (cases "map_of es n")
      case None
      with 4(3) obtain ch where c: "parents" "add_at parents (m # p) x (Dir []) = Some ch"
        "t' = Dir (AList.update n ch es)"
        by (auto split: if_splits)
      from pq obtain k' q'' where "q' = k' # q''" by (cases q') auto
      with 4(1) [OF None c(1,2) pq] c(3) q True None show ?thesis
        by (simp add: update_conv')
    next
      case (Some c)
      with 4(3) obtain ch where c: "add_at parents (m # p) x c = Some ch"
        "t' = Dir (AList.update n ch es)"
        by auto
      with 4(2) [OF Some c(1) pq] q True Some show ?thesis by (simp add: update_conv')
    qed
  qed
qed auto

lemma lookup_add_at_above:
  "add_at b (q @ r) x t = Some t' \<Longrightarrow> r \<noteq> [] \<Longrightarrow> lookup t q = Some (Dir es) \<Longrightarrow>
   \<exists>es'. lookup t' q = Some (Dir es') \<and> fst ` set es' = insert (hd r) (fst ` set es)"
proof (induction q arbitrary: t t')
  case Nil
  then obtain n r' where r: "r = n # r'" by (cases r) auto
  have k: "fst ` set (AList.update n v es) = insert n (fst ` set es)" for v
    using update_keys [of n v es] by (metis (no_types, lifting) insert_absorb list.simps(15)
        rotate1.simps(2) set_map set_rotate1)
  from Nil r show ?case
    by (cases r') (auto simp: k split: option.splits if_splits)
next
  case (Cons n q)
  from Cons.prems(3) obtain ds ch where t: "t = Dir ds" "map_of ds n = Some ch"
    "lookup ch q = Some (Dir es)"
    by (cases t) (auto split: option.splits)
  from Cons.prems(2) obtain m p where qr: "q @ r = m # p" by (cases "q @ r") auto
  with Cons.prems(1) t obtain ch' where c: "add_at b (q @ r) x ch = Some ch'"
    "t' = Dir (AList.update n ch' ds)"
    by auto
  from Cons.IH [OF c(1) Cons.prems(2) t(3)] c(2) show ?case by (simp add: update_conv')
qed

lemma add_at_succeeds:
  "is_dir_at t (butlast p) \<Longrightarrow> p \<noteq> [] \<Longrightarrow> \<exists>t'. add_at b p x t = Some t'"
proof (induction b p x t rule: add_at.induct)
  case (4 parents n m p x es)
  then show ?case
    by (cases "map_of es n") (auto simp: is_dir_at_def split: option.splits)
next
  case (2 parents n p x c)
  then show ?case by (cases p) (auto simp: is_dir_at_def)
qed (auto simp: is_dir_at_def)

subsection \<open>What a run may change\<close>

text \<open>What stood at a path is still there: a file with its content, a directory as a directory.\<close>

definition kept :: "node \<Rightarrow> node \<Rightarrow> bool" where
  "kept x y = (case x of File c \<Rightarrow> y = File c | Dir _ \<Rightarrow> (\<exists>es. y = Dir es))"

lemma kept_refl: "kept x x"
  by (cases x) (auto simp: kept_def)

lemma kept_trans: "kept x y \<Longrightarrow> kept y z \<Longrightarrow> kept x z"
  by (cases x; cases y) (auto simp: kept_def)

text \<open>
  \<open>advance t t'\<close>: everything under the canonical root is still there, a file with its content and a
  directory as a directory, and outside the canonical root nothing has appeared.
\<close>

lemma lookup_append:
  "lookup t (p @ r) = (case lookup t p of None \<Rightarrow> None | Some y \<Rightarrow> lookup y r)"
proof (induction p arbitrary: t)
  case Nil
  then show ?case by simp
next
  case (Cons n p)
  then show ?case by (cases t) (auto split: option.splits)
qed

lemma iterdir_exists: "n \<in> set (iterdir t q) \<Longrightarrow> exists_at t (q @ [n])"
proof -
  assume n: "n \<in> set (iterdir t q)"
  then obtain es where es: "lookup t q = Some (Dir es)" "n \<in> fst ` set es"
    by (cases "lookup t q"; cases "the (lookup t q)") (auto simp: iterdir_def)
  then have "map_of es n \<noteq> None" by (simp add: map_of_eq_None_iff)
  with es show ?thesis by (auto simp: exists_at_def lookup_append)
qed

definition advance :: "node \<Rightarrow> node \<Rightarrow> bool" where
  "advance t t' \<longleftrightarrow>
     (\<forall>r x. lookup t (specify_root @ r) = Some x \<longrightarrow>
        (\<exists>y. lookup t' (specify_root @ r) = Some y \<and> kept x y))
     \<and> (\<forall>q. \<not> prefix specify_root q \<longrightarrow>
          (exists_at t' q \<longrightarrow> exists_at t q) \<and> (is_dir_at t' q \<longrightarrow> is_dir_at t q)
          \<and> set (iterdir t' q) \<subseteq> set (iterdir t q))"

lemma advance_refl: "advance t t"
  by (auto simp: advance_def kept_refl)

lemma advance_trans: "advance a b \<Longrightarrow> advance b c \<Longrightarrow> advance a c"
  unfolding advance_def by (meson kept_trans subset_trans)

lemma advance_exists: "advance t t' \<Longrightarrow> exists_at t (specify_root @ r) \<Longrightarrow> exists_at t' (specify_root @ r)"
  unfolding advance_def exists_at_def by fastforce

lemma advance_is_dir:
  "advance t t' \<Longrightarrow> is_dir_at t (specify_root @ r) \<Longrightarrow> is_dir_at t' (specify_root @ r)"
  unfolding advance_def is_dir_at_def
  by (fastforce simp: kept_def split: option.splits node.splits)

lemma advance_is_dir_back:
  "advance t t' \<Longrightarrow> exists_at t (specify_root @ r) \<Longrightarrow> is_dir_at t' (specify_root @ r) \<Longrightarrow>
   is_dir_at t (specify_root @ r)"
  unfolding advance_def is_dir_at_def exists_at_def
  by (fastforce simp: kept_def split: option.splits node.splits)

text \<open>Two paths of which neither is a prefix of the other.\<close>

definition apart :: "path \<Rightarrow> path \<Rightarrow> bool" where
  "apart p q \<longleftrightarrow> \<not> prefix p q \<and> \<not> prefix q p"

lemma apart_append: "apart p q \<Longrightarrow> apart p (q @ r)"
  unfolding apart_def by (metis prefix_append prefix_order.dual_order.trans prefix_def)

lemma apart_sym: "apart p q \<Longrightarrow> apart q p"
  by (auto simp: apart_def)

lemma advance_remove:
  assumes "apart p specify_root"
  shows "advance t (remove_at p t)"
  unfolding advance_def
proof (intro conjI allI; intro impI)
  fix r x
  assume l: "lookup t (specify_root @ r) = Some x"
  from assms have "apart p (specify_root @ r)" by (rule apart_append)
  then have "lookup (remove_at p t) (specify_root @ r) = lookup t (specify_root @ r)"
    unfolding apart_def by (intro lookup_remove_at_other) auto
  with l show "\<exists>y. lookup (remove_at p t) (specify_root @ r) = Some y \<and> kept x y"
    by (simp add: kept_refl)
next
  fix q
  assume "\<not> prefix specify_root q"
  consider (under) "prefix p q" | (above) "\<not> prefix p q" "prefix q p" | (other) "\<not> prefix p q" "\<not> prefix q p"
    by blast
  then have "(exists_at (remove_at p t) q \<longrightarrow> exists_at t q)
      \<and> (is_dir_at (remove_at p t) q \<longrightarrow> is_dir_at t q)
      \<and> set (iterdir (remove_at p t) q) \<subseteq> set (iterdir t q)"
  proof cases
    case under
    from assms have "p \<noteq> []" by (auto simp: apart_def)
    then have "lookup (remove_at p t) q = None" using under by (rule lookup_remove_at_under)
    then show ?thesis by (simp add: exists_at_def is_dir_at_def iterdir_def)
  next
    case above
    then obtain r where r: "p = q @ r" "r \<noteq> []" by (auto simp: prefix_def)
    then have e: "lookup (remove_at p t) q = map_option (remove_at r) (lookup t q)"
      by (simp add: lookup_remove_at_above)
    show ?thesis
    proof (cases "lookup t q")
      case None
      with e show ?thesis by (simp add: exists_at_def is_dir_at_def iterdir_def)
    next
      case (Some y)
      show ?thesis
      proof (cases y)
        case (File c)
        with e Some show ?thesis by (simp add: exists_at_def is_dir_at_def iterdir_def)
      next
        case (Dir es)
        from remove_at_Dir [of r es] obtain es' where
          "remove_at r (Dir es) = Dir es'" "set (map fst es') \<subseteq> set (map fst es)" by blast
        with e Some Dir show ?thesis by (simp add: exists_at_def is_dir_at_def iterdir_def)
      qed
    qed
  next
    case other
    then have "lookup (remove_at p t) q = lookup t q" by (rule lookup_remove_at_other)
    then show ?thesis by (simp add: exists_at_def is_dir_at_def iterdir_def)
  qed
  then show "(exists_at (remove_at p t) q \<longrightarrow> exists_at t q) \<and>
         (is_dir_at (remove_at p t) q \<longrightarrow> is_dir_at t q) \<and>
         set (iterdir (remove_at p t) q) \<subseteq> set (iterdir t q)" .
qed

lemma lookup_parent_dir:
  assumes "lookup t (p @ r) = Some x" and "r \<noteq> []"
  shows "\<exists>es. lookup t p = Some (Dir es) \<and> hd r \<in> fst ` set es"
proof -
  from assms(2) obtain n r' where r: "r = n # r'" by (cases r) auto
  from assms(1) obtain y where y: "lookup t p = Some y" "lookup y r = Some x"
    by (auto simp: lookup_append split: option.splits)
  with r obtain es ch where "y = Dir es" "map_of es n = Some ch"
    by (cases y) (auto split: option.splits)
  with y r show ?thesis by (auto dest: map_of_SomeD intro: rev_image_eqI)
qed

lemma advance_add:
  assumes add: "add_at b (specify_root @ r) x t = Some t'" and r: "r \<noteq> []"
    and new: "\<not> exists_at t (specify_root @ r)"
    and parent: "is_dir_at t (butlast (specify_root @ r))"
  shows "advance t t'"
proof -
  let ?d = "specify_root @ r"
  from parent obtain ps where ps: "lookup t (butlast ?d) = Some (Dir ps)"
    by (auto simp: is_dir_at_def split: option.splits node.splits)
  text \<open>A strict prefix of the destination is a directory that has the next component.\<close>
  have anc: "\<exists>es es'. lookup t q = Some (Dir es) \<and> lookup t' q = Some (Dir es')
        \<and> (butlast r1 \<noteq> [] \<longrightarrow> fst ` set es' = fst ` set es)"
    if q: "?d = q @ r1" "r1 \<noteq> []" for q r1
  proof -
    have "\<exists>es. lookup t q = Some (Dir es) \<and> (butlast r1 \<noteq> [] \<longrightarrow> hd r1 \<in> fst ` set es)"
    proof (cases "butlast r1 = []")
      case True
      with q have "butlast ?d = q" by (simp add: butlast_append)
      with ps True show ?thesis by auto
    next
      case False
      from q have "butlast ?d = q @ butlast r1" by (simp add: butlast_append)
      with ps have "lookup t (q @ butlast r1) = Some (Dir ps)" by simp
      from lookup_parent_dir [OF this False] False q(2) show ?thesis
        by (cases r1) (auto split: if_splits)
    qed
    then obtain es where es: "lookup t q = Some (Dir es)"
      "butlast r1 \<noteq> [] \<longrightarrow> hd r1 \<in> fst ` set es" by blast
    from add q have "add_at b (q @ r1) x t = Some t'" by simp
    from lookup_add_at_above [OF this q(2) es(1)] obtain es' where
      es': "lookup t' q = Some (Dir es')" "fst ` set es' = insert (hd r1) (fst ` set es)" by blast
    show ?thesis
      using es es' by auto
  qed
  show ?thesis
    unfolding advance_def
  proof (intro conjI allI; intro impI)
    fix r0 x0
    assume l: "lookup t (specify_root @ r0) = Some x0"
    let ?q = "specify_root @ r0"
    consider (under) "prefix ?d ?q" | (above) "\<not> prefix ?d ?q" "prefix ?q ?d"
      | (other) "\<not> prefix ?d ?q" "\<not> prefix ?q ?d"
      by blast
    then show "\<exists>y. lookup t' ?q = Some y \<and> kept x0 y"
    proof cases
      case under
      then obtain r1 where "?q = ?d @ r1" by (auto simp: prefix_def)
      with l have "lookup t ?d \<noteq> None" by (auto simp: lookup_append split: option.splits)
      with new show ?thesis by (simp add: exists_at_def)
    next
      case above
      then obtain r1 where "?d = ?q @ r1" "r1 \<noteq> []" by (auto simp: prefix_def)
      from anc [OF this] l show ?thesis by (auto simp: kept_def)
    next
      case other
      with add have "lookup t' ?q = lookup t ?q" by (intro lookup_add_at_other)
      with l show ?thesis by (simp add: kept_refl)
    qed
  next
    fix q
    assume nq: "\<not> prefix specify_root q"
    then have nd: "\<not> prefix ?d q" by (meson prefix_append prefix_order.trans prefixI)
    have "lookup t' q = lookup t q
      \<or> (\<exists>es es'. lookup t q = Some (Dir es) \<and> lookup t' q = Some (Dir es') \<and> fst ` set es' = fst ` set es)"
    proof (cases "prefix q ?d")
      case True
      then obtain r1 where d: "?d = q @ r1" by (auto simp: prefix_def)
      with nd have "r1 \<noteq> []" by (cases r1) auto
      note r1 = d this
      have "butlast r1 \<noteq> []"
      proof
        assume "butlast r1 = []"
        with r1 have "butlast ?d = q" by (simp add: butlast_append)
        moreover from r have "prefix specify_root (butlast ?d)" by (simp add: butlast_append)
        ultimately show False using nq by simp
      qed
      with anc [OF r1] show ?thesis by auto
    next
      case False
      with nd add show ?thesis by (auto intro: lookup_add_at_other)
    qed
    then show "(exists_at t' q \<longrightarrow> exists_at t q) \<and> (is_dir_at t' q \<longrightarrow> is_dir_at t q)
        \<and> set (iterdir t' q) \<subseteq> set (iterdir t q)"
    proof (elim disjE exE conjE)
      assume "lookup t' q = lookup t q"
      then show ?thesis by (simp add: exists_at_def is_dir_at_def iterdir_def)
    next
      fix es es'
      assume "lookup t q = Some (Dir es)" "lookup t' q = Some (Dir es')"
        "fst ` set es' = fst ` set es"
      then show ?thesis by (simp add: exists_at_def is_dir_at_def iterdir_def)
    qed
  qed
qed

subsection \<open>Moves\<close>

lemma add_at_exists_mono:
  "add_at b p x t = Some t' \<Longrightarrow> exists_at t q \<Longrightarrow> \<not> prefix p q \<Longrightarrow> exists_at t' q"
proof (induction b p x t arbitrary: t' q rule: add_at.induct)
  case (3 parents n x es)
  then show ?case
    by (cases q) (auto simp: exists_at_def update_conv' split: option.splits)
next
  case (4 parents n m p x es)
  show ?case
  proof (cases q)
    case Nil
    with 4(3) show ?thesis by (auto simp: exists_at_def)
  next
    case (Cons k q')
    show ?thesis
    proof (cases "k = n")
      case False
      with 4(3,4) Cons show ?thesis
        by (auto simp: exists_at_def update_conv' split: option.splits if_splits)
    next
      case True
      with 4(4) Cons obtain c where c: "map_of es n = Some c" "exists_at c q'"
        by (auto simp: exists_at_def split: option.splits)
      with 4(3) obtain ch where ch: "add_at parents (m # p) x c = Some ch"
        "t' = Dir (AList.update n ch es)"
        by auto
      from 4(5) Cons True have "\<not> prefix (m # p) q'" by simp
      from 4(2) [OF c(1) ch(1) c(2) this] ch(2) Cons True show ?thesis
        by (simp add: exists_at_def update_conv')
    qed
  qed
qed (auto simp: exists_at_def)

lemma remove_at_exists_mono:
  "exists_at t q \<Longrightarrow> \<not> prefix p q \<Longrightarrow> exists_at (remove_at p t) q"
proof (cases "prefix q p")
  case True
  assume a: "exists_at t q" "\<not> prefix p q"
  from True a(2) obtain r where "p = q @ r" "r \<noteq> []" by (cases "p = q") (auto simp: prefix_def)
  with a(1) show ?thesis by (auto simp: exists_at_def lookup_remove_at_above)
next
  case False
  assume "exists_at t q" "\<not> prefix p q"
  with False show ?thesis by (simp add: exists_at_def lookup_remove_at_other)
qed

lemma shutil_move_Inr:
  "shutil_move src dst t = Inr t' \<Longrightarrow>
   \<exists>x b. lookup t src = Some x \<and> add_at b dst x (remove_at src t) = Some t'"
  by (auto simp: shutil_move_def split: option.splits if_splits)

lemma shutil_move_frame:
  "shutil_move src dst t = Inr t' \<Longrightarrow> exists_at t q \<Longrightarrow> \<not> prefix src q \<Longrightarrow> \<not> prefix dst q \<Longrightarrow>
   exists_at t' q"
proof -
  assume a: "shutil_move src dst t = Inr t'" "exists_at t q" "\<not> prefix src q" "\<not> prefix dst q"
  from shutil_move_Inr [OF a(1)] obtain x b where
    add: "add_at b dst x (remove_at src t) = Some t'" by auto
  from a(2,3) have "exists_at (remove_at src t) q" by (rule remove_at_exists_mono)
  with add show ?thesis using a(4) by (rule add_at_exists_mono)
qed

lemma shutil_move_advance:
  assumes mv: "shutil_move src (specify_root @ r) t = Inr t'" and r: "r \<noteq> []"
    and ap: "apart src specify_root"
    and new: "\<not> exists_at t (specify_root @ r)"
    and parent: "is_dir_at t (butlast (specify_root @ r))"
  shows "advance t t'" and "exists_at t' (specify_root @ r)" and "\<not> exists_at t' src"
proof -
  let ?d = "specify_root @ r"
  let ?t1 = "remove_at src t"
  from shutil_move_Inr [OF mv] obtain x b where
    x: "lookup t src = Some x" and add: "add_at b ?d x ?t1 = Some t'"
    by auto
  from ap have src: "src \<noteq> []" by (auto simp: apart_def)
  from ap have ad: "apart src ?d" by (rule apart_append)
  from ap have "apart src (specify_root @ butlast r)" by (rule apart_append)
  with r have ab: "apart src (butlast ?d)" by (simp add: butlast_append)
  have l1: "lookup ?t1 ?d = lookup t ?d" "lookup ?t1 (butlast ?d) = lookup t (butlast ?d)"
    using ad ab unfolding apart_def by (auto intro: lookup_remove_at_other)
  have a1: "advance t ?t1" using ap by (rule advance_remove)
  have a2: "advance ?t1 t'"
    using add r new parent l1 by (intro advance_add [of b r x]) (auto simp: exists_at_def is_dir_at_def)
  from a1 a2 show "advance t t'" by (rule advance_trans)
  from lookup_add_at_under [OF add, of "[]"] show "exists_at t' ?d"
    by (simp add: exists_at_def)
  have "lookup t' src = lookup ?t1 src"
    using add ad unfolding apart_def by (intro lookup_add_at_other) auto
  moreover have "lookup ?t1 src = None"
    using src by (intro lookup_remove_at_under) auto
  ultimately show "\<not> exists_at t' src" by (simp add: exists_at_def)
qed

lemma shutil_move_succeeds:
  assumes "exists_at t src" and r: "r \<noteq> []" and ap: "apart src specify_root"
    and parent: "is_dir_at t (butlast (specify_root @ r))"
  shows "\<exists>t'. shutil_move src (specify_root @ r) t = Inr t'"
proof -
  let ?d = "specify_root @ r"
  from ap have "apart src (specify_root @ butlast r)" by (rule apart_append)
  with r have "apart src (butlast ?d)" by (simp add: butlast_append)
  then have "lookup (remove_at src t) (butlast ?d) = lookup t (butlast ?d)"
    unfolding apart_def by (auto intro: lookup_remove_at_other)
  with parent have d: "is_dir_at (remove_at src t) (butlast ?d)" by (simp add: is_dir_at_def)
  from r have ne: "?d \<noteq> []" by simp
  from assms(1) obtain x where x: "lookup t src = Some x" by (auto simp: exists_at_def)
  from add_at_succeeds [OF d ne] obtain t' where
    "add_at (case x of Dir _ \<Rightarrow> True | File _ \<Rightarrow> False) ?d x (remove_at src t) = Some t'"
    by blast
  moreover from apart_append [OF ap, of r] have "\<not> strict_prefix src ?d"
    by (simp add: apart_def strict_prefix_def)
  ultimately show ?thesis using x by (simp add: shutil_move_def)
qed

lemma rmdir_advance: "rmdir p t = Some t' \<Longrightarrow> apart p specify_root \<Longrightarrow> advance t t'"
  by (auto simp: rmdir_def advance_remove split: option.splits node.splits list.splits)

lemma rmdir_nonempty: "iterdir t p \<noteq> [] \<Longrightarrow> rmdir p t = None"
  by (auto simp: rmdir_def iterdir_def split: option.splits node.splits list.splits)

subsection \<open>Paths of the three loops\<close>

lemma apart_legacy [simp]: "apart (legacy_root @ p) specify_root"
  by (simp add: apart_def legacy_root_def specify_root_def)

lemma apart_legacy0 [simp]: "apart legacy_root specify_root"
  by (simp add: apart_def legacy_root_def specify_root_def)

lemma apart_specs_item [simp]: "n \<noteq> ''.specify'' \<Longrightarrow> apart (specs_root @ n # p) specify_root"
  by (simp add: apart_def specs_root_def specify_root_def)

lemma apart_top [simp]: "k \<noteq> ''.specs'' \<Longrightarrow> apart [k] specify_root"
  by (simp add: apart_def specify_root_def)

lemma apart_not_prefix: "apart p specify_root \<Longrightarrow> \<not> prefix specify_root p"
  by (simp add: apart_def)

lemma apart_child: "apart p q \<Longrightarrow> apart (p @ r) q"
  by (rule apart_sym, rule apart_append, rule apart_sym)

lemma butlast_dest [simp]:
  "butlast (specify_root @ [n, c]) = specify_root @ [n]" "butlast (specify_root @ [n]) = specify_root"
  by (simp_all add: butlast_append)

subsection \<open>The inner loop\<close>

lemma shutil_move_other:
  "shutil_move src dst t = Inr t' \<Longrightarrow> apart q src \<Longrightarrow> apart q dst \<Longrightarrow> lookup t' q = lookup t q"
proof -
  assume a: "shutil_move src dst t = Inr t'" "apart q src" "apart q dst"
  then obtain x b where "add_at b dst x (remove_at src t) = Some t'"
    by (auto dest!: shutil_move_Inr)
  with a(3) have "lookup t' q = lookup (remove_at src t) q"
    unfolding apart_def by (intro lookup_add_at_other) auto
  also from a(2) have "\<dots> = lookup t q"
    unfolding apart_def by (intro lookup_remove_at_other) auto
  finally show ?thesis .
qed

lemma move_child_step:
  assumes d: "is_dir_at (fs s) (specify_root @ [n])" and ap: "apart item specify_root"
    and st: "move_child item (specify_root @ [n]) c s = (e, s')"
  shows "advance (fs s) (fs s')"
    and "e = None \<Longrightarrow> exists_at (fs s') (specify_root @ [n, c])"
    and "apart q item \<Longrightarrow> apart q (specify_root @ [n]) \<Longrightarrow> lookup (fs s') q = lookup (fs s) q"
    and "exists_at (fs s) (item @ [c']) \<Longrightarrow> c' \<noteq> c \<Longrightarrow> exists_at (fs s') (item @ [c'])"
    and "exists_at (fs s) (item @ [c]) \<or> exists_at (fs s) (specify_root @ [n, c]) \<Longrightarrow> e = None"
proof -
  let ?dst = "specify_root @ [n, c]"
  have apc: "apart (item @ [c]) specify_root" using ap by (rule apart_child)
  show "advance (fs s) (fs s')"
  proof (cases "exists_at (fs s) ?dst")
    case True
    with st show ?thesis by (simp add: move_child_def Let_def advance_refl)
  next
    case False
    show ?thesis
    proof (cases "shutil_move (item @ [c]) ?dst (fs s)")
      case (Inl a)
      with st False show ?thesis by (simp add: move_child_def Let_def advance_refl)
    next
      case (Inr t')
      from shutil_move_advance(1) [of "item @ [c]" "[n, c]" "fs s" t'] Inr apc False d
      have "advance (fs s) t'" by simp
      with st False Inr show ?thesis by (auto simp: move_child_def Let_def)
    qed
  qed
  show "exists_at (fs s') ?dst" if "e = None"
  proof (cases "exists_at (fs s) ?dst")
    case True
    with st show ?thesis by (simp add: move_child_def Let_def)
  next
    case False
    with st that obtain t' where t': "shutil_move (item @ [c]) ?dst (fs s) = Inr t'" "fs s' = t'"
      by (auto simp: move_child_def Let_def split: sum.splits)
    from shutil_move_advance(2) [of "item @ [c]" "[n, c]" "fs s" t'] t' apc False d
    show ?thesis by simp
  qed
  show "lookup (fs s') q = lookup (fs s) q" if "apart q item" "apart q (specify_root @ [n])"
  proof -
    have "apart q (item @ [c])" "apart q (specify_root @ [n, c])"
      using apart_append [of q "specify_root @ [n]" "[c]"] apart_append [of q item "[c]"] that
      by simp_all
    then show ?thesis
      using st by (auto simp: move_child_def Let_def split: if_splits sum.splits dest: shutil_move_other)
  qed
  show "exists_at (fs s') (item @ [c'])" if "exists_at (fs s) (item @ [c'])" "c' \<noteq> c"
  proof -
    have "\<not> prefix (item @ [c]) (item @ [c'])" using that(2) by simp
    moreover have "\<not> prefix ?dst (item @ [c'])"
      using apart_child [OF ap, of "[c']"] unfolding apart_def
      by (metis append.assoc prefix_append prefix_order.trans prefixI)
    ultimately show ?thesis
      using st that(1)
      by (auto simp: move_child_def Let_def split: if_splits sum.splits dest: shutil_move_frame)
  qed
  show "e = None" if "exists_at (fs s) (item @ [c]) \<or> exists_at (fs s) ?dst"
  proof (cases "exists_at (fs s) ?dst")
    case True
    with st show ?thesis by (simp add: move_child_def Let_def)
  next
    case False
    with that have "exists_at (fs s) (item @ [c])" by simp
    from shutil_move_succeeds [OF this _ apc, of "[n, c]"] d
    obtain t' where "shutil_move (item @ [c]) ?dst (fs s) = Inr t'" by auto
    with st False show ?thesis by (simp add: move_child_def Let_def)
  qed
qed

lemma children_loop:
  assumes "is_dir_at (fs s) (specify_root @ [n])" and "apart item specify_root"
    and "for_each (move_child item (specify_root @ [n])) cs s = (e, s')"
  shows "advance (fs s) (fs s')"
    and "e = None \<longrightarrow> (\<forall>c \<in> set cs. exists_at (fs s') (specify_root @ [n, c]))"
    and "apart q item \<longrightarrow> apart q (specify_root @ [n]) \<longrightarrow> lookup (fs s') q = lookup (fs s) q"
    and "(\<forall>c \<in> set cs. exists_at (fs s) (item @ [c]) \<or> exists_at (fs s) (specify_root @ [n, c]))
           \<longrightarrow> e = None"
  using assms
proof (induction cs arbitrary: s)
  case Nil
  {
    case 1 then show ?case by (simp add: advance_refl)
  next
    case 2 then show ?case by simp
  next
    case 3 then show ?case by simp
  next
    case 4 then show ?case by simp
  }
next
  case (Cons c cs)
  {
    fix s
    assume d: "is_dir_at (fs s) (specify_root @ [n])" and ap: "apart item specify_root"
      and run: "for_each (move_child item (specify_root @ [n])) (c # cs) s = (e, s')"
    obtain e1 s1 where st: "move_child item (specify_root @ [n]) c s = (e1, s1)"
      by (cases "move_child item (specify_root @ [n]) c s")
    note step = move_child_step [OF d ap st]
    have d1: "is_dir_at (fs s1) (specify_root @ [n])"
      using step(1) d by (rule advance_is_dir)
    have "advance (fs s) (fs s')
      \<and> (e = None \<longrightarrow> (\<forall>c \<in> set (c # cs). exists_at (fs s') (specify_root @ [n, c])))
      \<and> (apart q item \<longrightarrow> apart q (specify_root @ [n]) \<longrightarrow> lookup (fs s') q = lookup (fs s) q)
      \<and> ((\<forall>c \<in> set (c # cs). exists_at (fs s) (item @ [c]) \<or> exists_at (fs s) (specify_root @ [n, c]))
           \<longrightarrow> e = None)"
    proof (cases e1)
      case (Some a)
      with run st have "e = Some a" "s' = s1" by simp_all
      with step Some show ?thesis by auto
    next
      case None
      with run st have rest: "for_each (move_child item (specify_root @ [n])) cs s1 = (e, s')"
        by simp
      note ih = Cons.IH [OF d1 ap rest]
      have "advance (fs s) (fs s')" using step(1) ih(1) by (rule advance_trans)
      moreover have "e = None \<longrightarrow> (\<forall>c \<in> set (c # cs). exists_at (fs s') (specify_root @ [n, c]))"
        using ih(2) step(2) [OF None] advance_exists [OF ih(1), of "[n, c]"] by auto
      moreover have "apart q item \<longrightarrow> apart q (specify_root @ [n]) \<longrightarrow> lookup (fs s') q = lookup (fs s) q"
        using ih(3) step(3) by auto
      moreover have "e = None"
        if j: "\<forall>c \<in> set (c # cs). exists_at (fs s) (item @ [c]) \<or> exists_at (fs s) (specify_root @ [n, c])"
      proof -
        have "\<forall>c' \<in> set cs. exists_at (fs s1) (item @ [c']) \<or> exists_at (fs s1) (specify_root @ [n, c'])"
        proof
          fix c'
          assume c': "c' \<in> set cs"
          show "exists_at (fs s1) (item @ [c']) \<or> exists_at (fs s1) (specify_root @ [n, c'])"
          proof (cases "c' = c")
            case True
            with step(2) [OF None] show ?thesis by simp
          next
            case False
            from j c' have "exists_at (fs s) (item @ [c']) \<or> exists_at (fs s) (specify_root @ [n, c'])"
              by simp
            then show ?thesis
              using step(4) [OF _ False] advance_exists [OF step(1), of "[n, c']"] by auto
          qed
        qed
        with ih(4) show ?thesis by simp
      qed
      ultimately show ?thesis by blast
    qed
  }
  note main = this
  {
    case 1 from main [OF this] show ?case by simp
  next
    case 2 from main [OF this] show ?case by simp
  next
    case 3 from main [OF this] show ?case by simp
  next
    case 4 from main [OF this] show ?case by simp
  }
qed

lemma children_loop_noop:
  "\<forall>c \<in> set cs. exists_at (fs s) (dest @ [c]) \<Longrightarrow> for_each (move_child item dest) cs s = (None, s)"
  by (induction cs) (simp_all add: move_child_def)

subsection \<open>Loops in general\<close>

lemma for_each_establish:
  assumes step: "\<And>x s s'. P s \<Longrightarrow> x \<in> set xs \<Longrightarrow> body x s = (None, s') \<Longrightarrow> R s s' \<and> Q x s'"
    and pres: "\<And>x s s'. R s s' \<Longrightarrow> Q x s \<Longrightarrow> Q x s'"
    and inv: "\<And>s s'. R s s' \<Longrightarrow> P s \<Longrightarrow> P s'"
    and refl: "\<And>s. R s s" and trans: "\<And>a b c. R a b \<Longrightarrow> R b c \<Longrightarrow> R a c"
    and "P s" and "for_each body xs s = (None, s')"
  shows "R s s' \<and> (\<forall>x \<in> set xs. Q x s')"
proof -
  have "P s \<Longrightarrow> for_each body ys s = (None, s') \<Longrightarrow> set ys \<subseteq> set xs \<Longrightarrow>
      R s s' \<and> (\<forall>x \<in> set ys. Q x s')" for ys
  proof (induction ys arbitrary: s)
    case Nil
    then show ?case by (simp add: refl)
  next
    case (Cons y ys)
    from Cons.prems(2) obtain s1 where s1: "body y s = (None, s1)" "for_each body ys s1 = (None, s')"
      by (cases "body y s") (auto split: option.splits)
    from step [OF Cons.prems(1) _ s1(1)] Cons.prems(3) have y: "R s s1" "Q y s1" by auto
    from inv [OF y(1) Cons.prems(1)] have "P s1" .
    from Cons.IH [OF this s1(2)] Cons.prems(3) have r: "R s1 s'" "\<forall>x \<in> set ys. Q x s'" by auto
    from pres [OF r(1) y(2)] r y(1) show ?case by (auto intro: trans)
  qed
  from this [of xs] assms(6,7) show ?thesis by simp
qed

lemma for_each_noop: "\<forall>x \<in> set xs. body x s = (None, s) \<Longrightarrow> for_each body xs s = (None, s)"
  by (induction xs) simp_all

subsection \<open>First loop\<close>

text \<open>An entry of the legacy directory on which the body of the first loop moves nothing.\<close>

definition settled_legacy :: "string \<Rightarrow> node \<Rightarrow> bool" where
  "settled_legacy n t \<longleftrightarrow>
     exists_at t (specify_root @ [n])
     \<and> (is_dir_at t (legacy_root @ [n]) \<longrightarrow>
          is_dir_at t (specify_root @ [n])
          \<and> (\<forall>c \<in> set (iterdir t (legacy_root @ [n])). exists_at t (specify_root @ [n, c])))"

lemma advance_outside:
  assumes "advance t t'" and "\<not> prefix specify_root q"
  shows "exists_at t' q \<Longrightarrow> exists_at t q" and "is_dir_at t' q \<Longrightarrow> is_dir_at t q"
    and "set (iterdir t' q) \<subseteq> set (iterdir t q)"
  using assms unfolding advance_def by blast+

lemma settled_legacy_advance:
  assumes "advance t t'" and "settled_legacy n t"
  shows "settled_legacy n t'"
proof -
  have np: "\<not> prefix specify_root (legacy_root @ [n])"
    by (rule apart_not_prefix) simp
  note out = advance_outside [OF assms(1) np]
  show ?thesis
    unfolding settled_legacy_def
  proof (intro conjI impI ballI)
    from assms show "exists_at t' (specify_root @ [n])"
      by (auto simp: settled_legacy_def intro: advance_exists)
  next
    assume "is_dir_at t' (legacy_root @ [n])"
    with out(2) assms(2) have "is_dir_at t (specify_root @ [n])" by (simp add: settled_legacy_def)
    with assms(1) show "is_dir_at t' (specify_root @ [n])" by (rule advance_is_dir)
  next
    fix c
    assume "is_dir_at t' (legacy_root @ [n])" "c \<in> set (iterdir t' (legacy_root @ [n]))"
    with out(2,3) assms(2) have "exists_at t (specify_root @ [n, c])"
      by (auto simp: settled_legacy_def)
    with assms(1) show "exists_at t' (specify_root @ [n, c])" by (rule advance_exists)
  qed
qed

lemma migrate_item_step:
  assumes y: "is_dir_at (fs s) specify_root" and st: "migrate_item n s = (None, s')"
  shows "advance (fs s) (fs s')" and "settled_legacy n (fs s')"
proof -
  let ?item = "legacy_root @ [n]" and ?dest = "specify_root @ [n]"
  have ap: "apart ?item specify_root" by simp
  have "advance (fs s) (fs s') \<and> settled_legacy n (fs s')"
  proof (cases "exists_at (fs s) ?dest")
    case dest: True
    show ?thesis
    proof (cases "is_dir_at (fs s) ?item")
      case False
      with st dest show ?thesis
        by (auto simp: migrate_item_def Let_def advance_refl settled_legacy_def)
    next
      case True
      with st dest have d: "is_dir_at (fs s) ?dest"
        by (auto simp: migrate_item_def Let_def split: if_splits)
      obtain e1 s1 where l: "for_each (move_child ?item ?dest) (iterdir (fs s) ?item) s = (e1, s1)"
        by (cases "for_each (move_child ?item ?dest) (iterdir (fs s) ?item) s")
      with st dest True d have e1: "e1 = None" and s': "fs s' = fs s1"
        by (auto simp: migrate_item_def Let_def split: option.splits)
      note loop = children_loop [OF d ap l]
      have "settled_legacy n (fs s1)"
        unfolding settled_legacy_def
      proof (intro conjI impI ballI)
        show "exists_at (fs s1) ?dest" using loop(1) dest by (rule advance_exists)
        show "is_dir_at (fs s1) ?dest" using loop(1) d by (rule advance_is_dir)
        fix c
        assume "c \<in> set (iterdir (fs s1) ?item)"
        with advance_outside(3) [OF loop(1) apart_not_prefix [OF ap]]
        have "c \<in> set (iterdir (fs s) ?item)" by blast
        with loop(2) e1 show "exists_at (fs s1) (specify_root @ [n, c])" by simp
      qed
      with loop(1) s' show ?thesis by simp
    qed
  next
    case False
    with st obtain t' where mv: "shutil_move ?item ?dest (fs s) = Inr t'" and s': "fs s' = t'"
      by (auto simp: migrate_item_def Let_def split: sum.splits)
    from shutil_move_advance [OF mv _ ap False] y
    have "advance (fs s) t'" "exists_at t' ?dest" "\<not> exists_at t' ?item" by simp_all
    moreover from this(3) have "\<not> is_dir_at t' ?item"
      by (auto simp: exists_at_def is_dir_at_def)
    ultimately show ?thesis using s' by (simp add: settled_legacy_def)
  qed
  then show "advance (fs s) (fs s')" and "settled_legacy n (fs s')" by simp_all
qed

lemma migrate_item_noop:
  assumes "settled_legacy n (fs s)"
  shows "\<exists>k. migrate_item n s = (None, s\<lparr>migrated := k\<rparr>)"
proof (cases "is_dir_at (fs s) (legacy_root @ [n])")
  case False
  with assms have "migrate_item n s = (None, s\<lparr>migrated := migrated s\<rparr>)"
    by (simp add: migrate_item_def Let_def settled_legacy_def)
  then show ?thesis ..
next
  case True
  with assms have "for_each (move_child (legacy_root @ [n]) (specify_root @ [n]))
      (iterdir (fs s) (legacy_root @ [n])) s = (None, s)"
    by (intro children_loop_noop) (simp add: settled_legacy_def)
  with True assms have "migrate_item n s = (None, s\<lparr>migrated := migrated s + 1\<rparr>)"
    by (simp add: migrate_item_def Let_def settled_legacy_def)
  then show ?thesis ..
qed

lemma migrate_loop:
  assumes "is_dir_at (fs s) specify_root" and "for_each migrate_item ns s = (None, s')"
  shows "advance (fs s) (fs s') \<and> (\<forall>n \<in> set ns. settled_legacy n (fs s'))"
  by (rule for_each_establish [where P = "\<lambda>s. is_dir_at (fs s) specify_root"
        and R = "\<lambda>s s'. advance (fs s) (fs s')" and Q = "\<lambda>n s. settled_legacy n (fs s)"
        and body = migrate_item, OF _ _ _ _ _ assms])
    (auto intro: migrate_item_step settled_legacy_advance advance_refl advance_trans
      advance_is_dir [where r = "[]", simplified])

lemma migrate_loop_noop:
  "\<forall>n \<in> set ns. settled_legacy n (fs s) \<Longrightarrow> \<exists>k. for_each migrate_item ns s = (None, s\<lparr>migrated := k\<rparr>)"
proof (induction ns arbitrary: s)
  case Nil
  have "for_each migrate_item [] s = (None, s\<lparr>migrated := migrated s\<rparr>)" by simp
  then show ?case ..
next
  case (Cons n ns)
  from Cons.prems migrate_item_noop [of n s] obtain k where
    k: "migrate_item n s = (None, s\<lparr>migrated := k\<rparr>)" by auto
  from Cons.prems have "\<forall>m \<in> set ns. settled_legacy m (fs (s\<lparr>migrated := k\<rparr>))" by simp
  from Cons.IH [OF this] obtain k' where
    "for_each migrate_item ns (s\<lparr>migrated := k\<rparr>) = (None, s\<lparr>migrated := k'\<rparr>)" by auto
  with k have "for_each migrate_item (n # ns) s = (None, s\<lparr>migrated := k'\<rparr>)" by simp
  then show ?case ..
qed

text \<open>The legacy directory, if still there, is not empty and holds settled entries only.\<close>

definition settled_legacy_root :: "node \<Rightarrow> bool" where
  "settled_legacy_root t \<longleftrightarrow>
     (is_dir_at t legacy_root \<longrightarrow>
        iterdir t legacy_root \<noteq> [] \<and> (\<forall>n \<in> set (iterdir t legacy_root). settled_legacy n t))"

lemma migrate_legacy_props:
  assumes y: "is_dir_at (fs s) specify_root" and r: "migrate_legacy s = (None, s')"
  shows "advance (fs s) (fs s')" and "settled_legacy_root (fs s')"
proof -
  have "advance (fs s) (fs s') \<and> settled_legacy_root (fs s')"
  proof (cases "is_dir_at (fs s) legacy_root")
    case False
    with r show ?thesis by (simp add: migrate_legacy_def advance_refl settled_legacy_root_def)
  next
    case True
    with r obtain s1 where l: "for_each migrate_item (iterdir (fs s) legacy_root) s = (None, s1)"
      and s': "s' = try_rmdir legacy_root s1"
      by (auto simp: migrate_legacy_def split: prod.splits option.splits)
    from migrate_loop [OF y l] have a: "advance (fs s) (fs s1)"
      and n: "\<forall>n \<in> set (iterdir (fs s) legacy_root). settled_legacy n (fs s1)" by simp_all
    show ?thesis
    proof (cases "rmdir legacy_root (fs s1)")
      case None
      with s' have eq: "s' = s1" by (simp add: try_rmdir_def)
      have "settled_legacy_root (fs s1)"
        unfolding settled_legacy_root_def
      proof (intro impI conjI ballI)
        assume "is_dir_at (fs s1) legacy_root"
        with None show "iterdir (fs s1) legacy_root \<noteq> []"
          by (auto simp: rmdir_def is_dir_at_def iterdir_def split: option.splits node.splits list.splits)
      next
        fix m
        assume "m \<in> set (iterdir (fs s1) legacy_root)"
        with advance_outside(3) [OF a, of legacy_root] have "m \<in> set (iterdir (fs s) legacy_root)"
          by (auto simp: legacy_root_def specify_root_def)
        with n show "settled_legacy m (fs s1)" by simp
      qed
      with a eq show ?thesis by simp
    next
      case (Some t')
      with s' have eq: "fs s' = t'" by (simp add: try_rmdir_def)
      from Some have "advance (fs s1) t'" by (rule rmdir_advance) simp
      moreover from Some have "\<not> is_dir_at t' legacy_root"
        by (auto simp: rmdir_def is_dir_at_def lookup_remove_at_under legacy_root_def
            split: option.splits node.splits list.splits)
      ultimately show ?thesis using a eq
        by (auto simp: settled_legacy_root_def intro: advance_trans)
    qed
  qed
  then show "advance (fs s) (fs s')" and "settled_legacy_root (fs s')" by simp_all
qed

lemma settled_legacy_root_kept:
  assumes "advance t t'" and "lookup t' legacy_root = lookup t legacy_root"
    and "settled_legacy_root t"
  shows "settled_legacy_root t'"
  using assms
  by (auto simp: settled_legacy_root_def is_dir_at_def iterdir_def intro: settled_legacy_advance)

lemma migrate_legacy_noop:
  assumes "settled_legacy_root (fs s)"
  shows "\<exists>k. migrate_legacy s = (None, s\<lparr>migrated := k\<rparr>)"
proof (cases "is_dir_at (fs s) legacy_root")
  case False
  then have "migrate_legacy s = (None, s\<lparr>migrated := migrated s\<rparr>)"
    by (simp add: migrate_legacy_def)
  then show ?thesis ..
next
  case True
  with assms have ne: "iterdir (fs s) legacy_root \<noteq> []"
    and "\<forall>n \<in> set (iterdir (fs s) legacy_root). settled_legacy n (fs s)"
    by (simp_all add: settled_legacy_root_def)
  from migrate_loop_noop [OF this(2)] obtain k where
    k: "for_each migrate_item (iterdir (fs s) legacy_root) s = (None, s\<lparr>migrated := k\<rparr>)" by auto
  from ne have "rmdir legacy_root (fs s) = None" by (rule rmdir_nonempty)
  with k True have "migrate_legacy s = (None, s\<lparr>migrated := k\<rparr>)"
    by (simp add: migrate_legacy_def try_rmdir_def)
  then show ?thesis ..
qed

subsection \<open>Second loop\<close>

definition settled_named :: "string \<Rightarrow> node \<Rightarrow> bool" where
  "settled_named k t \<longleftrightarrow> \<not> exists_at t [k] \<or> exists_at t (specify_root @ [k])"

lemma settled_named_advance:
  assumes "advance t t'" and "settled_named k t"
  shows "settled_named k t'"
proof -
  have "\<not> prefix specify_root [k]" by (simp add: specify_root_def)
  from advance_outside(1) [OF assms(1) this] assms(2) advance_exists [OF assms(1), of "[k]"]
  show ?thesis by (auto simp: settled_named_def)
qed

lemma move_named_step:
  assumes y: "is_dir_at (fs s) specify_root" and k: "k \<noteq> ''.specs''" "k \<noteq> ''.specify''"
    and st: "move_named k s = (None, s')"
  shows "advance (fs s) (fs s')" and "settled_named k (fs s')"
    and "lookup (fs s') legacy_root = lookup (fs s) legacy_root"
proof -
  have "advance (fs s) (fs s') \<and> settled_named k (fs s')
      \<and> lookup (fs s') legacy_root = lookup (fs s) legacy_root"
  proof (cases "exists_at (fs s) [k] \<and> \<not> exists_at (fs s) (specify_root @ [k])")
    case False
    with st have "s' = s"
      by (auto simp: move_named_def Let_def split: if_splits)
    with False show ?thesis
      by (auto simp: advance_refl settled_named_def)
  next
    case True
    with st obtain t' where mv: "shutil_move [k] (specify_root @ [k]) (fs s) = Inr t'"
      and s': "fs s' = t'"
      by (auto simp: move_named_def Let_def split: sum.splits)
    from True have new: "\<not> exists_at (fs s) (specify_root @ [k])" by simp
    from shutil_move_advance [OF mv _ _ new] y k(1)
    have "advance (fs s) t'" "exists_at t' (specify_root @ [k])" by simp_all
    moreover have "lookup t' legacy_root = lookup (fs s) legacy_root"
      using mv k by (intro shutil_move_other) (auto simp: apart_def legacy_root_def specify_root_def)
    ultimately show ?thesis using s' by (simp add: settled_named_def)
  qed
  then show "advance (fs s) (fs s')" and "settled_named k (fs s')"
    and "lookup (fs s') legacy_root = lookup (fs s) legacy_root" by simp_all
qed

lemma move_named_noop: "settled_named k (fs s) \<Longrightarrow> move_named k s = (None, s)"
  by (auto simp: move_named_def Let_def settled_named_def)

lemma named_loop:
  assumes "is_dir_at (fs s) specify_root" and "for_each move_named ks s = (None, s')"
    and ks: "''.specs'' \<notin> set ks" "''.specify'' \<notin> set ks"
  shows "(advance (fs s) (fs s') \<and> lookup (fs s') legacy_root = lookup (fs s) legacy_root)
      \<and> (\<forall>k \<in> set ks. settled_named k (fs s'))"
proof (rule for_each_establish [where P = "\<lambda>s. is_dir_at (fs s) specify_root"
        and R = "\<lambda>s s'. advance (fs s) (fs s') \<and> lookup (fs s') legacy_root = lookup (fs s) legacy_root"
        and Q = "\<lambda>n s. settled_named n (fs s)" and body = move_named, OF _ _ _ _ _ assms(1,2)])
  fix x s s'
  assume "is_dir_at (fs s) specify_root" "x \<in> set ks" "move_named x s = (None, s')"
  with ks move_named_step [of s x s']
  show "(advance (fs s) (fs s') \<and> lookup (fs s') legacy_root = lookup (fs s) legacy_root)
      \<and> settled_named x (fs s')"
    by auto
qed (auto intro: settled_named_advance advance_refl advance_trans
    advance_is_dir [where r = "[]", simplified])

subsection \<open>Third loop\<close>

definition settled_nested :: "string \<Rightarrow> node \<Rightarrow> bool" where
  "settled_nested n t \<longleftrightarrow>
     n = ''.specify'' \<or> \<not> exists_at t (specs_root @ [n])
     \<or> (exists_at t (specify_root @ [n])
         \<and> (is_dir_at t (specs_root @ [n]) \<and> is_dir_at t (specify_root @ [n]) \<longrightarrow>
              iterdir t (specs_root @ [n]) \<noteq> []
              \<and> (\<forall>c \<in> set (iterdir t (specs_root @ [n])). exists_at t (specify_root @ [n, c]))))"

lemma is_dir_exists: "is_dir_at t p \<Longrightarrow> exists_at t p"
  by (auto simp: is_dir_at_def exists_at_def split: option.splits)

lemma rmdir_other: "rmdir p t = Some t' \<Longrightarrow> apart q p \<Longrightarrow> lookup t' q = lookup t q"
  by (auto simp: rmdir_def apart_def lookup_remove_at_other split: option.splits node.splits list.splits)

lemma consolidate_item_noop:
  assumes "settled_nested n (fs s)"
  shows "consolidate_item n s = s"
proof (cases "n = ''.specify''")
  case True
  then show ?thesis by (simp add: consolidate_item_def)
next
  case n: False
  let ?item = "specs_root @ [n]" and ?dest = "specify_root @ [n]"
  show ?thesis
  proof (cases "exists_at (fs s) ?item")
    case False
    then have "\<not> is_dir_at (fs s) ?item" by (auto dest: is_dir_exists)
    moreover from False have "shutil_move ?item ?dest (fs s) = Inl FileNotFoundError"
      by (simp add: shutil_move_def exists_at_def)
    ultimately show ?thesis using n by (simp add: consolidate_item_def Let_def)
  next
    case True
    with assms n have dest: "exists_at (fs s) ?dest"
      and both: "is_dir_at (fs s) ?item \<and> is_dir_at (fs s) ?dest \<Longrightarrow>
        iterdir (fs s) ?item \<noteq> []
        \<and> (\<forall>c \<in> set (iterdir (fs s) ?item). exists_at (fs s) (specify_root @ [n, c]))"
      by (auto simp: settled_nested_def)
    show ?thesis
    proof (cases "is_dir_at (fs s) ?item \<and> is_dir_at (fs s) ?dest")
      case False
      with dest n show ?thesis by (auto simp: consolidate_item_def Let_def)
    next
      case dirs: True
      from both [OF dirs] have "for_each (move_child ?item ?dest) (iterdir (fs s) ?item) s = (None, s)"
        by (intro children_loop_noop) simp
      moreover from both [OF dirs] have "rmdir ?item (fs s) = None" by (intro rmdir_nonempty) simp
      ultimately show ?thesis using dirs dest n
        by (simp add: consolidate_item_def Let_def try_rmdir_def)
    qed
  qed
qed

lemma consolidate_item_step:
  assumes y: "is_dir_at (fs s) specify_root"
  shows "advance (fs s) (fs (consolidate_item n s))"
    and "settled_nested n (fs (consolidate_item n s))"
    and "lookup (fs (consolidate_item n s)) legacy_root = lookup (fs s) legacy_root"
    and "m \<noteq> n \<Longrightarrow> m \<noteq> ''.specify'' \<Longrightarrow>
         lookup (fs (consolidate_item n s)) (specs_root @ [m]) = lookup (fs s) (specs_root @ [m])"
proof -
  let ?item = "specs_root @ [n]" and ?dest = "specify_root @ [n]"
  let ?s' = "consolidate_item n s"
  let ?frame = "\<lambda>t'. lookup t' legacy_root = lookup (fs s) legacy_root
      \<and> (\<forall>m. m \<noteq> n \<longrightarrow> m \<noteq> ''.specify'' \<longrightarrow> lookup t' (specs_root @ [m]) = lookup (fs s) (specs_root @ [m]))"
  have far: "apart legacy_root ?item" "apart legacy_root ?dest"
    "\<And>m. m \<noteq> n \<Longrightarrow> m \<noteq> ''.specify'' \<Longrightarrow> apart (specs_root @ [m]) ?item"
    "\<And>m. m \<noteq> n \<Longrightarrow> m \<noteq> ''.specify'' \<Longrightarrow> apart (specs_root @ [m]) ?dest"
    by (simp_all add: apart_def legacy_root_def specs_root_def specify_root_def)
  have "advance (fs s) (fs ?s') \<and> settled_nested n (fs ?s') \<and> ?frame (fs ?s')"
  proof (cases "n = ''.specify''")
    case True
    then show ?thesis by (simp add: consolidate_item_def advance_refl settled_nested_def)
  next
    case n: False
    then have ap: "apart ?item specify_root" by simp
    show ?thesis
    proof (cases "exists_at (fs s) ?dest")
      case False
      show ?thesis
      proof (cases "shutil_move ?item ?dest (fs s)")
        case (Inl a)
        with False n have eq: "?s' = s" by (simp add: consolidate_item_def Let_def)
        have "\<not> exists_at (fs s) ?item"
        proof
          assume "exists_at (fs s) ?item"
          from shutil_move_succeeds [OF this _ ap, of "[n]"] y Inl show False by simp
        qed
        with eq show ?thesis by (simp add: advance_refl settled_nested_def)
      next
        case (Inr t')
        with False n have eq: "fs ?s' = t'" by (simp add: consolidate_item_def Let_def)
        from shutil_move_advance [OF Inr _ ap False] y
        have "advance (fs s) t'" "\<not> exists_at t' ?item" by simp_all
        moreover have "?frame t'"
          using far Inr by (auto intro: shutil_move_other)
        ultimately show ?thesis using eq by (simp add: settled_nested_def)
      qed
    next
      case dest: True
      show ?thesis
      proof (cases "is_dir_at (fs s) ?item \<and> is_dir_at (fs s) ?dest")
        case False
        with dest n have "?s' = s" by (auto simp: consolidate_item_def Let_def)
        with dest False show ?thesis by (auto simp: advance_refl settled_nested_def)
      next
        case dirs: True
        obtain e1 s1 where l: "for_each (move_child ?item ?dest) (iterdir (fs s) ?item) s = (e1, s1)"
          by (cases "for_each (move_child ?item ?dest) (iterdir (fs s) ?item) s")
        from dirs have d: "is_dir_at (fs s) ?dest" by simp
        note loop = children_loop [OF d ap l]
        have "\<forall>c \<in> set (iterdir (fs s) ?item). exists_at (fs s) (?item @ [c])"
          by (auto dest: iterdir_exists)
        with loop(4) have e1: "e1 = None" by simp
        with l dest dirs n have eq: "?s' = try_rmdir ?item s1"
          by (simp add: consolidate_item_def Let_def)
        have f1: "?frame (fs s1)"
          using far loop(3) by auto
        have kids: "\<forall>c \<in> set (iterdir (fs s1) ?item). exists_at (fs s1) (specify_root @ [n, c])"
        proof
          fix c
          assume "c \<in> set (iterdir (fs s1) ?item)"
          with advance_outside(3) [OF loop(1) apart_not_prefix [OF ap]]
          have "c \<in> set (iterdir (fs s) ?item)" by blast
          with loop(2) e1 show "exists_at (fs s1) (specify_root @ [n, c])" by simp
        qed
        show ?thesis
        proof (cases "rmdir ?item (fs s1)")
          case None
          with eq have s': "?s' = s1" by (simp add: try_rmdir_def)
          have "settled_nested n (fs s1)"
            unfolding settled_nested_def
          proof (intro disjI2 conjI impI)
            show "exists_at (fs s1) ?dest" using loop(1) dest by (rule advance_exists)
            assume "is_dir_at (fs s1) ?item \<and> is_dir_at (fs s1) ?dest"
            with None show "iterdir (fs s1) ?item \<noteq> []"
              by (auto simp: rmdir_def is_dir_at_def iterdir_def
                  split: option.splits node.splits list.splits)
            show "\<forall>c \<in> set (iterdir (fs s1) ?item). exists_at (fs s1) (specify_root @ [n, c])"
              by (rule kids)
          qed
          with s' loop(1) f1 show ?thesis by simp
        next
          case (Some t')
          with eq have s': "fs ?s' = t'" by (simp add: try_rmdir_def)
          from Some ap have "advance (fs s1) t'" by (rule rmdir_advance)
          with loop(1) have "advance (fs s) t'" by (rule advance_trans)
          moreover from Some have "\<not> exists_at t' ?item"
            by (auto simp: rmdir_def exists_at_def lookup_remove_at_under specs_root_def
                split: option.splits node.splits list.splits)
          moreover have "?frame t'"
            using f1 far rmdir_other [OF Some] by (auto simp: apart_sym)
          ultimately show ?thesis using s' by (simp add: settled_nested_def)
        qed
      qed
    qed
  qed
  then show "advance (fs s) (fs ?s')" and "settled_nested n (fs ?s')"
    and "lookup (fs ?s') legacy_root = lookup (fs s) legacy_root"
    and "m \<noteq> n \<Longrightarrow> m \<noteq> ''.specify'' \<Longrightarrow>
         lookup (fs ?s') (specs_root @ [m]) = lookup (fs s) (specs_root @ [m])"
    by simp_all
qed

lemma settled_nested_kept:
  assumes y: "is_dir_at (fs s) specify_root" and n: "settled_nested n (fs s)"
  shows "settled_nested n (fs (consolidate_item m s))"
proof (cases "m = n \<or> n = ''.specify''")
  case True
  then show ?thesis
  proof
    assume "m = n"
    with n consolidate_item_noop [OF n] show ?thesis by simp
  next
    assume "n = ''.specify''"
    then show ?thesis by (simp add: settled_nested_def)
  qed
next
  case False
  let ?t = "fs s" and ?t' = "fs (consolidate_item m s)"
  let ?item = "specs_root @ [n]"
  from False have eq: "lookup ?t' ?item = lookup ?t ?item"
    by (intro consolidate_item_step(4) [OF y]) auto
  note adv = consolidate_item_step(1) [OF y, of m]
  show ?thesis
  proof (cases "exists_at ?t ?item")
    case False
    with eq show ?thesis by (simp add: settled_nested_def exists_at_def)
  next
    case True
    with n False have dest: "exists_at ?t (specify_root @ [n])"
      and both: "is_dir_at ?t ?item \<and> is_dir_at ?t (specify_root @ [n]) \<Longrightarrow>
        iterdir ?t ?item \<noteq> []
        \<and> (\<forall>c \<in> set (iterdir ?t ?item). exists_at ?t (specify_root @ [n, c]))"
      by (auto simp: settled_nested_def)
    show ?thesis
      unfolding settled_nested_def
    proof (intro disjI2 conjI impI)
      from adv dest show "exists_at ?t' (specify_root @ [n])" by (rule advance_exists)
    next
      assume a: "is_dir_at ?t' ?item \<and> is_dir_at ?t' (specify_root @ [n])"
      with eq have "is_dir_at ?t ?item" by (simp add: is_dir_at_def)
      moreover from adv dest a have "is_dir_at ?t (specify_root @ [n])"
        by (auto intro: advance_is_dir_back)
      ultimately have b: "iterdir ?t ?item \<noteq> []"
        "\<forall>c \<in> set (iterdir ?t ?item). exists_at ?t (specify_root @ [n, c])"
        using both by simp_all
      from eq have it: "iterdir ?t' ?item = iterdir ?t ?item" by (simp add: iterdir_def)
      with b(1) show "iterdir ?t' ?item \<noteq> []" by simp
      show "\<forall>c \<in> set (iterdir ?t' ?item). exists_at ?t' (specify_root @ [n, c])"
      proof
        fix c
        assume "c \<in> set (iterdir ?t' ?item)"
        with it b(2) have "exists_at ?t (specify_root @ [n, c])" by simp
        with adv show "exists_at ?t' (specify_root @ [n, c])" by (rule advance_exists)
      qed
    qed
  qed
qed

lemma specify_root_kept:
  "advance t t' \<Longrightarrow> is_dir_at t specify_root \<Longrightarrow> is_dir_at t' specify_root"
  using advance_is_dir [of t t' "[]"] by simp

lemma nested_loop:
  assumes "is_dir_at (fs s) specify_root"
  shows "advance (fs s) (fs (fold consolidate_item ns s))"
    and "lookup (fs (fold consolidate_item ns s)) legacy_root = lookup (fs s) legacy_root"
    and "settled_nested n (fs s) \<or> n \<in> set ns \<Longrightarrow> settled_nested n (fs (fold consolidate_item ns s))"
proof -
  have "advance (fs s) (fs (fold consolidate_item ns s))
      \<and> lookup (fs (fold consolidate_item ns s)) legacy_root = lookup (fs s) legacy_root
      \<and> (settled_nested n (fs s) \<or> n \<in> set ns \<longrightarrow> settled_nested n (fs (fold consolidate_item ns s)))"
    using assms
  proof (induction ns arbitrary: s)
    case Nil
    then show ?case by (simp add: advance_refl)
  next
    case (Cons m ns)
    let ?s1 = "consolidate_item m s"
    note step = consolidate_item_step [OF Cons.prems]
    from step(1) Cons.prems have y1: "is_dir_at (fs ?s1) specify_root" by (rule specify_root_kept)
    note ih = Cons.IH [OF y1]
    have "settled_nested n (fs s) \<or> n \<in> set (m # ns) \<Longrightarrow> settled_nested n (fs ?s1) \<or> n \<in> set ns"
      using step(2) [of m] settled_nested_kept [OF Cons.prems, of n m] by auto
    with ih step(1) [of m] step(3) [of m] show ?case
      by (auto intro: advance_trans)
  qed
  then show "advance (fs s) (fs (fold consolidate_item ns s))"
    and "lookup (fs (fold consolidate_item ns s)) legacy_root = lookup (fs s) legacy_root"
    and "settled_nested n (fs s) \<or> n \<in> set ns \<Longrightarrow> settled_nested n (fs (fold consolidate_item ns s))"
    by simp_all
qed

lemma nested_loop_noop:
  "\<forall>n \<in> set ns. settled_nested n (fs s) \<Longrightarrow> fold consolidate_item ns s = s"
  by (induction ns) (simp_all add: consolidate_item_noop)

lemma specs_root_is_dir: "is_dir_at t specify_root \<Longrightarrow> is_dir_at t specs_root"
proof -
  assume "is_dir_at t specify_root"
  then obtain x where "lookup t (specs_root @ [''.specify'']) = Some x"
    by (auto simp: is_dir_at_def specify_root_def specs_root_def split: option.splits)
  from lookup_parent_dir [OF this] show ?thesis by (auto simp: is_dir_at_def)
qed

text \<open>The state in which a run starts.\<close>

definition start :: "node \<Rightarrow> reloc" where
  "start project = \<lparr>fs = project, migrated = 0, moved = 0, nested_moved = 0, moves = 0\<rparr>"

definition settled :: "node \<Rightarrow> bool" where
  "settled t \<longleftrightarrow>
     is_dir_at t specify_root \<and> settled_legacy_root t
     \<and> (\<forall>k \<in> set non_agent_dirs. settled_named k t)
     \<and> (\<forall>n \<in> set (iterdir t specs_root). settled_nested n t)"

lemma first_run_settles:
  assumes y: "is_dir_at project specify_root"
    and run: "relocate_non_agent_directories project = (None, s)"
  shows "settled (fs s)"
proof -
  from run obtain s1 s2 where
    p1: "migrate_legacy (start project) = (None, s1)"
    and p2: "for_each move_named non_agent_dirs s1 = (None, s2)"
    and p3: "s = fold consolidate_item (iterdir (fs s2) specs_root) s2"
    by (auto simp: relocate_non_agent_directories_def start_def
        split: prod.splits option.splits if_splits)
  from y have y0: "is_dir_at (fs (start project)) specify_root" by (simp add: start_def)
  note l1 = migrate_legacy_props [OF y0 p1]
  from l1(1) y0 have y1: "is_dir_at (fs s1) specify_root" by (rule specify_root_kept)
  have "''.specs'' \<notin> set non_agent_dirs" "''.specify'' \<notin> set non_agent_dirs"
    by (simp_all add: non_agent_dirs_def)
  note l2 = named_loop [OF y1 p2 this]
  from l2 y1 have y2: "is_dir_at (fs s2) specify_root" by (auto intro: specify_root_kept)
  note l3 = nested_loop [OF y2, where ns = "iterdir (fs s2) specs_root", folded p3]
  from l3(1) y2 have y3: "is_dir_at (fs s) specify_root" by (rule specify_root_kept)
  from l2 l1(2) have "settled_legacy_root (fs s2)" by (auto intro: settled_legacy_root_kept)
  with l3(1,2) have a: "settled_legacy_root (fs s)" by (auto intro: settled_legacy_root_kept)
  from l2 l3(1) have b: "\<forall>k \<in> set non_agent_dirs. settled_named k (fs s)"
    by (auto intro: settled_named_advance)
  have "\<not> prefix specify_root specs_root" by (simp add: specify_root_def specs_root_def)
  from advance_outside(3) [OF l3(1) this] l3(3)
  have c: "\<forall>n \<in> set (iterdir (fs s) specs_root). settled_nested n (fs s)" by blast
  from y3 a b c show ?thesis by (simp add: settled_def)
qed

lemma settled_run:
  assumes "settled t"
  shows "\<exists>k. relocate_non_agent_directories t
    = (None, \<lparr>fs = t, migrated = k, moved = 0, nested_moved = 0, moves = 0\<rparr>)"
proof -
  from assms migrate_legacy_noop [of "start t"] obtain k where
    p1: "migrate_legacy (start t) = (None, (start t)\<lparr>migrated := k\<rparr>)"
    by (auto simp: settled_def start_def)
  let ?s = "(start t)\<lparr>migrated := k\<rparr>"
  have fs: "fs ?s = t" by (simp add: start_def)
  from assms have "\<forall>k \<in> set non_agent_dirs. move_named k ?s = (None, ?s)"
    by (auto simp: settled_def fs intro!: move_named_noop)
  then have p2: "for_each move_named non_agent_dirs ?s = (None, ?s)" by (rule for_each_noop)
  from assms have p3: "fold consolidate_item (iterdir t specs_root) ?s = ?s"
    by (intro nested_loop_noop) (simp add: settled_def fs)
  from assms have "is_dir_at t specs_root" by (simp add: settled_def specs_root_is_dir)
  with p1 p2 p3 have "relocate_non_agent_directories t = (None, ?s)"
    by (simp add: relocate_non_agent_directories_def start_def)
  then show ?thesis by (auto simp: start_def)
qed

subsection \<open>Relocation twice in a row\<close>

text \<open>
  Where the canonical root \<open>.specs/.specify\<close> is a directory before the first run and that run
  returns without raising, a second run on the resulting tree returns as well, moves nothing
  in any of its three loops and leaves the tree as it is. Only the counter \<open>migrated\<close> may be
  positive then: it also counts a legacy directory whose children all stay behind.
\<close>

lemma relocation_settled:
  assumes "is_dir_at project specify_root"
    and "relocate_non_agent_directories project = (None, s)"
  shows "\<exists>k. relocate_non_agent_directories (fs s)
    = (None, \<lparr>fs = fs s, migrated = k, moved = 0, nested_moved = 0, moves = 0\<rparr>)"
  using assms by (intro settled_run first_run_settles)

definition new_layout :: node where
  "new_layout = Dir
     [(''.specify'', Dir [(''memory'', Dir [(''a.md'', File ''A'')]),
                          (''README'', File ''r'')]),
      (''logs'', File ''l''),
      (''.specs'', Dir [(''.specify'', Dir [(''memory'', Dir [(''a.md'', File ''A0''),
                                                            (''b.md'', File ''B''),
                                                            (''c.md'', File ''C'')]),
                                           (''README'', File ''r0''),
                                           (''logs'', Dir []),
                                           (''templates'', Dir [(''t.md'', File ''T'')]),
                                           (''docs'', Dir [(''d.md'', File ''D'')]),
                                           (''notes'', Dir [(''n.md'', File ''N'')])]),
                        (''memory'', Dir [(''a.md'', File ''A1'')])])]"

text \<open>
  A run on \<open>old_layout\<close> moves five items, among them one of each loop, and a second run moves none.
\<close>

lemma old_layout_run:
  "relocate_non_agent_directories old_layout
     = (None, \<lparr>fs = new_layout, migrated = 2, moved = 1, nested_moved = 1, moves = 5\<rparr>)"
  by code_simp

lemma old_layout_twice:
  "relocate_non_agent_directories new_layout
     = (None, \<lparr>fs = new_layout, migrated = 1, moved = 0, nested_moved = 0, moves = 0\<rparr>)"
  by code_simp

text \<open>
  Claim C3. The claim fails where the canonical root does not exist yet. In \<open>loose_specs\<close> the
  specs root holds the file \<open>X\<close>, listed first, and the directory \<open>Y\<close>, and no \<open>.specify\<close>.
  The first run tries to move \<open>X\<close>; the move fails for want of the parent directory and the
  third loop passes over the exception. It then moves \<open>Y\<close>, and the move of a directory creates
  \<open>.specs/.specify\<close>. The second run moves \<open>X\<close>: \<open>nested_moved\<close> is 1 and the tree changes
  again. Nothing in the function creates the canonical root before it moves entries into it.
\<close>

definition loose_once :: node where
  "loose_once = Dir [(''.specs'', Dir [(''X'', File ''x''), (''.specify'', Dir [(''Y'', Dir [])])])]"

definition loose_twice :: node where
  "loose_twice = Dir [(''.specs'', Dir [(''.specify'', Dir [(''Y'', Dir []), (''X'', File ''x'')])])]"

theorem relocation_second_run_moves:
  "lookup loose_specs specify_root = None
   \<and> relocate_non_agent_directories loose_specs
       = (None, \<lparr>fs = loose_once, migrated = 0, moved = 0, nested_moved = 1, moves = 1\<rparr>)
   \<and> relocate_non_agent_directories loose_once
       = (None, \<lparr>fs = loose_twice, migrated = 0, moved = 0, nested_moved = 1, moves = 1\<rparr>)
   \<and> loose_twice \<noteq> loose_once"
  by code_simp

end
